theory Spec2Isabelle
  imports Main
begin

section \<open>Machine integers\<close>

text \<open>
  Go's \<open>int\<close> is taken to be 64 bits wide (the usual platform). Values are modelled as
  \<open>int\<close>; every addition of the source is followed by \<open>wrap64\<close>, the two's complement
  wrap-around of a signed 64-bit integer.
\<close>

definition wrap64 :: "int \<Rightarrow> int" where
  "wrap64 x = (x + 9223372036854775808) mod 18446744073709551616 - 9223372036854775808"

definition DefaultConcurrency :: int where
  "DefaultConcurrency = 5"

definition DefaultChunkSize :: int where
  "DefaultChunkSize = 1024 * 1024 * 5"

section \<open>Errors and HTTP data\<close>

datatype numerr = ErrSyntax | ErrRange

text \<open>
  The error values the package produces or passes on. \<open>External\<close> stands for an error of a
  collaborator (request construction, transport, body read, a caller's option).
\<close>

datatype error =
    EOF
  | ErrClosedPipe
  | Canceled
  | DeadlineExceeded
  | NumError string string numerr
  | UnexpectedStatus int string
  | Wrapped string error
  | External string

type_synonym header = "(string \<times> string) list"

record request =
  Method :: string
  URL :: string
  ReqHeader :: header
  Range :: "(int \<times> int) option"

record response =
  StatusCode :: int
  Status :: string
  ContentLength :: int
  Header :: header
  Body :: string
  BodyErr :: "error option"

type_synonym client = "request \<Rightarrow> error + response"

text \<open>\<open>Header.Get\<close>: the first value stored under the key, or the empty string.\<close>

definition Header_Get :: "header \<Rightarrow> string \<Rightarrow> string" where
  "Header_Get h k = (case map_of h k of None \<Rightarrow> [] | Some v \<Rightarrow> v)"

section \<open>The remote file and its options\<close>

text \<open>
  The struct \<open>remoteFile\<close>. The field \<open>size\<close> is named \<open>fsize\<close> here; the read end
  \<open>rd\<close> of the pipe is the sink of the scheduler's state further down.
\<close>

record remoteFile =
  client :: client
  req :: request
  chunkSize :: int
  concurrency :: int
  fsize :: int
  debug :: bool

text \<open>
  An option mutates the file through its pointer and returns an error or nil: the model
  returns the error (if any) together with the updated file.
\<close>

type_synonym Option = "remoteFile \<Rightarrow> error option \<times> remoteFile"

fun Options :: "Option list \<Rightarrow> Option" where
  "Options [] f = (None, f)"
| "Options (opt # opts) f =
     (case opt f of
        (Some err, f') \<Rightarrow> (Some err, f')
      | (None, f') \<Rightarrow> Options opts f')"

definition WithClient :: "client option \<Rightarrow> Option" where
  "WithClient cl f = (case cl of None \<Rightarrow> (None, f) | Some c \<Rightarrow> (None, f\<lparr>client := c\<rparr>))"

definition WithConcurrency :: "int \<Rightarrow> Option" where
  "WithConcurrency c f = (let c = (if c < 1 then 1 else c) in (None, f\<lparr>concurrency := c\<rparr>))"

definition WithChunkSize :: "int \<Rightarrow> Option" where
  "WithChunkSize c f =
     (let c = (if c < 1 then DefaultChunkSize else c) in (None, f\<lparr>chunkSize := c\<rparr>))"

definition WithDebug :: Option where
  "WithDebug f = (None, f\<lparr>debug := True\<rparr>)"

section \<open>Chunk arithmetic of \<open>getChunk\<close>\<close>

text \<open>Line 111: the terminal test \<open>start == f.size+1\<close>.\<close>

definition getChunk_terminal :: "remoteFile \<Rightarrow> int \<Rightarrow> bool" where
  "getChunk_terminal f start \<longleftrightarrow> start = wrap64 (fsize f + 1)"

text \<open>Lines 129-132: \<open>end := start + f.chunkSize\<close>, clipped to \<open>f.size\<close>.\<close>

definition getChunk_end :: "remoteFile \<Rightarrow> int \<Rightarrow> int" where
  "getChunk_end f start =
     (let e = wrap64 (start + chunkSize f) in if e > fsize f then fsize f else e)"

text \<open>Line 137: the successor task starts at \<open>end+1\<close>.\<close>

definition getChunk_next :: "remoteFile \<Rightarrow> int \<Rightarrow> int" where
  "getChunk_next f start = wrap64 (getChunk_end f start + 1)"

text \<open>
  The chain of range requests \<open>bytes=start-end\<close> issued by a task and its successors, in
  spawn order. The recursion of the source need not end, so the chain is computed with
  fuel: \<open>None\<close> means the fuel ran out before a terminal task was reached.
\<close>

fun getChunk_requests :: "nat \<Rightarrow> remoteFile \<Rightarrow> int \<Rightarrow> (int \<times> int) list option" where
  "getChunk_requests 0 f start = None"
| "getChunk_requests (Suc n) f start =
     (if getChunk_terminal f start then Some []
      else map_option ((#) (start, getChunk_end f start))
             (getChunk_requests n f (getChunk_next f start)))"

text \<open>A file with the default settings and a given resolved size.\<close>

definition file0 :: remoteFile where
  "file0 = \<lparr>client = (\<lambda>r. Inl (External ''no transport'')),
            req = \<lparr>Method = ''GET'', URL = [], ReqHeader = [], Range = None\<rparr>,
            chunkSize = DefaultChunkSize, concurrency = DefaultConcurrency,
            fsize = 0, debug = False\<rparr>"

section \<open>Size resolution and \<open>GetContext\<close>\<close>

text \<open>
  \<open>strings.Split(s, "/")\<close> for a separator of one character: the pieces between the
  separators, in order; the result is never empty (the empty string gives one empty piece).
  The accumulator holds the current piece, reversed.
\<close>

fun Split_acc :: "char \<Rightarrow> string \<Rightarrow> string \<Rightarrow> string list" where
  "Split_acc sep acc [] = [rev acc]"
| "Split_acc sep acc (c # cs) =
     (if c = sep then rev acc # Split_acc sep [] cs else Split_acc sep (c # acc) cs)"

definition Split :: "string \<Rightarrow> char \<Rightarrow> string list" where
  "Split s sep = Split_acc sep [] s"

text \<open>
  \<open>strconv.Atoi\<close> of the Go standard library (base 10, 64-bit \<open>int\<close>), after its
  documentation and source: an optional sign, then at least one decimal digit and nothing
  else (a syntax error otherwise); a value outside the 64-bit range is a range error. The
  digits are scanned from the left, as \<open>ParseUint\<close> does, so the first offending
  character decides which error is reported.
\<close>

definition isDigit :: "char \<Rightarrow> bool" where
  "isDigit c \<longleftrightarrow> 48 \<le> (of_char c :: nat) \<and> (of_char c :: nat) \<le> 57"

definition digitVal :: "char \<Rightarrow> nat" where
  "digitVal c = of_char c - 48"

fun ParseUint_loop :: "nat \<Rightarrow> string \<Rightarrow> numerr + nat" where
  "ParseUint_loop n [] = Inr n"
| "ParseUint_loop n (c # cs) =
     (if \<not> isDigit c then Inl ErrSyntax
      else if n * 10 + digitVal c > 18446744073709551615 then Inl ErrRange
      else ParseUint_loop (n * 10 + digitVal c) cs)"

definition Atoi :: "string \<Rightarrow> error + int" where
  "Atoi s =
     (if s = [] then Inl (NumError ''Atoi'' s ErrSyntax)
      else
        let neg = (hd s = CHR ''-'');
            ds = (if hd s = CHR ''+'' \<or> hd s = CHR ''-'' then tl s else s)
        in if ds = [] then Inl (NumError ''Atoi'' s ErrSyntax)
           else case ParseUint_loop 0 ds of
                  Inl ErrSyntax \<Rightarrow> Inl (NumError ''Atoi'' s ErrSyntax)
                | Inl ErrRange \<Rightarrow> Inl (NumError ''Atoi'' s ErrRange)
                | Inr un \<Rightarrow>
                    if \<not> neg \<and> un \<ge> 9223372036854775808 then Inl (NumError ''Atoi'' s ErrRange)
                    else if neg \<and> un > 9223372036854775808 then Inl (NumError ''Atoi'' s ErrRange)
                    else Inr (if neg then - int un else int un))"

text \<open>The value of a string of decimal digits, used to state what \<open>Atoi\<close> returns.\<close>

definition decimal :: "string \<Rightarrow> nat" where
  "decimal s = foldl (\<lambda>n c. n * 10 + digitVal c) 0 s"

text \<open>
  Lines 70-90 of \<open>GetContext\<close>: the resolved size, or the error of \<open>Atoi\<close>.
  \<open>res.ContentLength\<close> is the transport's field (an \<open>int64\<close>; the library documents -1
  as "length unknown"); the conversion \<open>int(resLen)\<close> is the identity on 64 bits.
\<close>

definition GetContext_size :: "response \<Rightarrow> error + int" where
  "GetContext_size res =
     (let resLen = ContentLength res in
      if resLen \<noteq> 0 then Inr resLen
      else
        let contentRange = Header_Get (Header res) ''Range'';
            parts = Split contentRange CHR ''/'';
            totalStr = last parts
        in if totalStr \<noteq> ''*''
           then (case Atoi totalStr of Inl err \<Rightarrow> Inl err | Inr n \<Rightarrow> Inr n)
           else Inr (- 1))"

text \<open>
  \<open>GetContext\<close>. \<open>newReq method url\<close> stands for \<open>http.NewRequestWithContext\<close> and
  \<open>dc\<close> for \<open>http.DefaultClient\<close>. The result is the returned pair (an error, or the
  file that serves as reader) together with the start offsets of the \<open>getChunk\<close>
  goroutines started before returning (line 96).
\<close>

definition GetContext ::
  "(string \<Rightarrow> string \<Rightarrow> error + request) \<Rightarrow> client \<Rightarrow> string \<Rightarrow> Option list
     \<Rightarrow> (error + remoteFile) \<times> int list" where
  "GetContext newReq dc url opts =
     (case newReq ''GET'' url of
        Inl err \<Rightarrow> (Inl err, [])
      | Inr rq \<Rightarrow>
          (case Options opts \<lparr>client = dc, req = rq, chunkSize = DefaultChunkSize,
                               concurrency = DefaultConcurrency, fsize = 0, debug = False\<rparr> of
             (Some err, file) \<Rightarrow> (Inl err, [])
           | (None, file) \<Rightarrow>
               (case newReq ''HEAD'' url of
                  Inl err \<Rightarrow> (Inl err, [])
                | Inr sizeReq \<Rightarrow>
                    (case client file (sizeReq\<lparr>ReqHeader := ReqHeader (req file)\<rparr>) of
                       Inl err \<Rightarrow> (Inl (Wrapped ''unable to get content range'' err), [])
                     | Inr res \<Rightarrow>
                         (case GetContext_size res of
                            Inl err \<Rightarrow> (Inl err, [])
                          | Inr sz \<Rightarrow> (Inr (file\<lparr>fsize := sz\<rparr>), [0]))))))"

section \<open>The chunk scheduler: \<open>getChunk\<close> as concurrent tasks\<close>

text \<open>
  Every call of \<open>getChunk\<close> runs in a goroutine of its own. Task 0 is started by
  \<open>GetContext\<close> (line 96); task \<open>i+1\<close> is the one task \<open>i\<close> starts (line 137). The
  program counter of a task records how far its call has come; the points are those
  between two actions on shared state (the channels, the pipe, the transport).
\<close>

datatype pc =
    NotStarted                     \<comment> \<open>the goroutine does not exist yet\<close>
  | Entry                          \<comment> \<open>started; line 111 not yet passed\<close>
  | Acquired                       \<comment> \<open>permit sent (124); lines 129-137 pending\<close>
  | Fetching                       \<comment> \<open>successor started (137); \<open>client.Do\<close> running (143)\<close>
  | Fetched "error + response"     \<comment> \<open>\<open>client.Do\<close> has returned\<close>
  | Copying string "error option"  \<comment> \<open>token received (158), \<open>io.Copy\<close> running: the body
                                       still to copy and the error ending the body, if any\<close>
  | CloseNext                      \<comment> \<open>returning: deferred \<open>close(next)\<close> pending (135)\<close>
  | Release                        \<comment> \<open>returning: deferred \<open><-concurrencyLock\<close> pending (125-127)\<close>
  | Returned
  | TermDefer                      \<comment> \<open>terminal task: deferred \<open>close(concurrencyLock)\<close> pending (112)\<close>
  | TermReturned
  | Panicked                       \<comment> \<open>send on the closed \<open>concurrencyLock\<close>\<close>

text \<open>
  The shared state of one fetch operation. \<open>permits\<close> is the number of elements in the
  buffer of \<open>concurrencyLock\<close>; \<open>seqClosed\<close> holds the tasks whose \<open>sequenceLock\<close> has
  been closed; \<open>sink\<close> is the pipe (\<open>None\<close> while open, else the error it was closed
  with, which every later \<open>Read\<close> returns); \<open>out\<close> is what the reader has received so
  far, each byte with the index of the task that wrote it. The pipe has no buffer, so a
  byte is written when it is read.
\<close>

record sched =
  pcs :: "nat \<Rightarrow> pc"
  starts :: "nat \<Rightarrow> int"
  permits :: nat
  lockClosed :: bool
  seqClosed :: "nat set"
  ctxErr :: "error option"
  sink :: "error option"
  out :: "(nat \<times> char) list"

text \<open>The state when \<open>GetContext\<close> has executed \<open>go file.getChunk(ctx, cl, sl, 0, wr)\<close>.\<close>

definition init :: sched where
  "init = \<lparr>pcs = (\<lambda>i. NotStarted)(0 := Entry), starts = (\<lambda>i. 0), permits = 0,
           lockClosed = False, seqClosed = {}, ctxErr = None, sink = None, out = []\<rparr>"

text \<open>
  \<open>wr.CloseWithError(err)\<close> of \<open>io.Pipe\<close>: closes the pipe with the error; it never
  overwrites the error of an earlier close.
\<close>

definition CloseWithError :: "error \<Rightarrow> error option \<Rightarrow> error option" where
  "CloseWithError err snk = (case snk of None \<Rightarrow> Some err | Some e \<Rightarrow> Some e)"

text \<open>Line 150: a status code outside 200-299.\<close>

definition badStatus :: "response \<Rightarrow> bool" where
  "badStatus res \<longleftrightarrow> StatusCode res < 200 \<or> StatusCode res > 299"

text \<open>Lines 139-140: the request of a task is the template with the range header added.\<close>

definition getChunk_req :: "remoteFile \<Rightarrow> int \<Rightarrow> request" where
  "getChunk_req f start = (req f)\<lparr>Range := Some (start, getChunk_end f start)\<rparr>"

text \<open>
  The actions. \<open>MainReturn\<close> is the return of \<open>GetContext\<close> (its deferred \<open>close(sl)\<close>,
  line 94); \<open>CtxDone\<close> is the cancellation or deadline of the context; all others are
  actions of the task named.
\<close>

datatype event =
    MainReturn
  | CtxDone error
  | TermCtx nat            \<comment> \<open>lines 115-116\<close>
  | TermSeq nat            \<comment> \<open>lines 117-118\<close>
  | CloseLock nat          \<comment> \<open>line 112, when the terminal task returns\<close>
  | Acquire nat            \<comment> \<open>line 124\<close>
  | Spawn nat              \<comment> \<open>lines 129-137\<close>
  | Do nat                 \<comment> \<open>line 143: the transport answers\<close>
  | DoFailed nat           \<comment> \<open>lines 144-146\<close>
  | BadStatus nat          \<comment> \<open>lines 150-152\<close>
  | SelCtx nat             \<comment> \<open>lines 156-157\<close>
  | SelSeq nat             \<comment> \<open>line 158: the ordering token arrives, \<open>io.Copy\<close> starts\<close>
  | CopyWrite nat nat      \<comment> \<open>line 159: the reader takes the next bytes of the body\<close>
  | CopyClosed nat         \<comment> \<open>lines 159-162: the write fails, the pipe is closed\<close>
  | CopyErr nat            \<comment> \<open>lines 159-162: reading the body fails\<close>
  | CopyEOF nat            \<comment> \<open>line 159: the body is exhausted, \<open>io.Copy\<close> returns nil\<close>
  | DeferCloseNext nat     \<comment> \<open>line 135\<close>
  | DeferRelease nat       \<comment> \<open>lines 125-127\<close>

text \<open>
  One action: the state after it, or \<open>None\<close> when the action cannot happen in the state
  (the task is elsewhere, or it blocks). A \<open>select\<close> takes any branch that is ready. A
  send on \<open>concurrencyLock\<close> blocks while the buffer is full and panics when the channel
  is closed; a receive takes an element, or returns at once when the channel is closed
  and empty. The answer of the transport to a request is \<open>client f\<close> applied to it; when
  it arrives is up to the schedule. \<open>io.Copy\<close> hands the body to the pipe piece by piece
  (any piece sizes), stops at the first failed write, reports an error that ends the body
  once all bytes before it are written, and takes \<open>EOF\<close> from the body as its regular end.
\<close>

fun exec :: "remoteFile \<Rightarrow> event \<Rightarrow> sched \<Rightarrow> sched option" where
  "exec f MainReturn s =
     (if 0 \<in> seqClosed s then None else Some (s\<lparr>seqClosed := insert 0 (seqClosed s)\<rparr>))"
| "exec f (CtxDone e) s =
     (if ctxErr s = None \<and> (e = Canceled \<or> e = DeadlineExceeded)
      then Some (s\<lparr>ctxErr := Some e\<rparr>) else None)"
| "exec f (TermCtx i) s =
     (if pcs s i = Entry \<and> getChunk_terminal f (starts s i)
      then (case ctxErr s of
              None \<Rightarrow> None
            | Some e \<Rightarrow> Some (s\<lparr>sink := CloseWithError e (sink s),
                                pcs := (pcs s)(i := TermDefer)\<rparr>))
      else None)"
| "exec f (TermSeq i) s =
     (if pcs s i = Entry \<and> getChunk_terminal f (starts s i) \<and> i \<in> seqClosed s
      then Some (s\<lparr>sink := CloseWithError EOF (sink s), pcs := (pcs s)(i := TermDefer)\<rparr>)
      else None)"
| "exec f (CloseLock i) s =
     (if pcs s i = TermDefer
      then Some (s\<lparr>lockClosed := True, pcs := (pcs s)(i := TermReturned)\<rparr>)
      else None)"
| "exec f (Acquire i) s =
     (if pcs s i = Entry \<and> \<not> getChunk_terminal f (starts s i)
      then (if lockClosed s then Some (s\<lparr>pcs := (pcs s)(i := Panicked)\<rparr>)
            else if int (permits s) < concurrency f
            then Some (s\<lparr>permits := Suc (permits s), pcs := (pcs s)(i := Acquired)\<rparr>)
            else None)
      else None)"
| "exec f (Spawn i) s =
     (if pcs s i = Acquired
      then Some (s\<lparr>pcs := (pcs s)(i := Fetching, Suc i := Entry),
                   starts := (starts s)(Suc i := getChunk_next f (starts s i))\<rparr>)
      else None)"
| "exec f (Do i) s =
     (if pcs s i = Fetching
      then Some (s\<lparr>pcs := (pcs s)(i := Fetched (client f (getChunk_req f (starts s i))))\<rparr>)
      else None)"
| "exec f (DoFailed i) s =
     (case pcs s i of
        Fetched (Inl err) \<Rightarrow>
          Some (s\<lparr>sink := CloseWithError err (sink s), pcs := (pcs s)(i := CloseNext)\<rparr>)
      | _ \<Rightarrow> None)"
| "exec f (BadStatus i) s =
     (case pcs s i of
        Fetched (Inr res) \<Rightarrow>
          if badStatus res
          then Some (s\<lparr>sink := CloseWithError (UnexpectedStatus (StatusCode res) (Status res))
                                   (sink s),
                       pcs := (pcs s)(i := CloseNext)\<rparr>)
          else None
      | _ \<Rightarrow> None)"
| "exec f (SelCtx i) s =
     (case pcs s i of
        Fetched (Inr res) \<Rightarrow>
          (case ctxErr s of
             None \<Rightarrow> None
           | Some e \<Rightarrow>
               if badStatus res then None
               else Some (s\<lparr>sink := CloseWithError e (sink s),
                            pcs := (pcs s)(i := CloseNext)\<rparr>))
      | _ \<Rightarrow> None)"
| "exec f (SelSeq i) s =
     (case pcs s i of
        Fetched (Inr res) \<Rightarrow>
          if \<not> badStatus res \<and> i \<in> seqClosed s
          then Some (s\<lparr>pcs := (pcs s)(i := Copying (Body res) (BodyErr res))\<rparr>)
          else None
      | _ \<Rightarrow> None)"
| "exec f (CopyWrite i n) s =
     (case pcs s i of
        Copying rest berr \<Rightarrow>
          if sink s = None \<and> 0 < n \<and> n \<le> length rest
          then Some (s\<lparr>out := out s @ map (Pair i) (take n rest),
                       pcs := (pcs s)(i := Copying (drop n rest) berr)\<rparr>)
          else None
      | _ \<Rightarrow> None)"
| "exec f (CopyClosed i) s =
     (case pcs s i of
        Copying rest berr \<Rightarrow>
          if sink s \<noteq> None \<and> rest \<noteq> []
          then Some (s\<lparr>sink := CloseWithError ErrClosedPipe (sink s),
                       pcs := (pcs s)(i := CloseNext)\<rparr>)
          else None
      | _ \<Rightarrow> None)"
| "exec f (CopyErr i) s =
     (case pcs s i of
        Copying rest berr \<Rightarrow>
          (case berr of
             None \<Rightarrow> None
           | Some e \<Rightarrow>
               if rest = [] \<and> e \<noteq> EOF
               then Some (s\<lparr>sink := CloseWithError e (sink s), pcs := (pcs s)(i := CloseNext)\<rparr>)
               else None)
      | _ \<Rightarrow> None)"
| "exec f (CopyEOF i) s =
     (case pcs s i of
        Copying rest berr \<Rightarrow>
          if rest = [] \<and> (berr = None \<or> berr = Some EOF)
          then Some (s\<lparr>pcs := (pcs s)(i := CloseNext)\<rparr>)
          else None
      | _ \<Rightarrow> None)"
| "exec f (DeferCloseNext i) s =
     (if pcs s i = CloseNext
      then Some (s\<lparr>seqClosed := insert (Suc i) (seqClosed s), pcs := (pcs s)(i := Release)\<rparr>)
      else None)"
| "exec f (DeferRelease i) s =
     (if pcs s i = Release \<and> (0 < permits s \<or> lockClosed s)
      then Some (s\<lparr>permits := permits s - 1, pcs := (pcs s)(i := Returned)\<rparr>)
      else None)"

text \<open>A run: the actions of a list, one after the other, from a state.\<close>

fun run :: "remoteFile \<Rightarrow> event list \<Rightarrow> sched \<Rightarrow> sched option" where
  "run f [] s = Some s"
| "run f (ev # evs) s = (case exec f ev s of None \<Rightarrow> None | Some s' \<Rightarrow> run f evs s')"

text \<open>Where a task stands.\<close>

fun holding :: "pc \<Rightarrow> bool" where
  "holding Acquired = True"
| "holding Fetching = True"
| "holding (Fetched r) = True"
| "holding (Copying b e) = True"
| "holding CloseNext = True"
| "holding Release = True"
| "holding p = False"

fun spawnedNext :: "pc \<Rightarrow> bool" where
  "spawnedNext Fetching = True"
| "spawnedNext (Fetched r) = True"
| "spawnedNext (Copying b e) = True"
| "spawnedNext CloseNext = True"
| "spawnedNext Release = True"
| "spawnedNext Returned = True"
| "spawnedNext p = False"

fun finished :: "pc \<Rightarrow> bool" where
  "finished Release = True"
| "finished Returned = True"
| "finished p = False"

fun pastToken :: "pc \<Rightarrow> bool" where
  "pastToken (Copying b e) = True"
| "pastToken CloseNext = True"
| "pastToken Release = True"
| "pastToken Returned = True"
| "pastToken TermDefer = True"
| "pastToken TermReturned = True"
| "pastToken p = False"

text \<open>
  Invariants of the scheduler. \<open>inv_chain\<close>: a task exists only if its predecessor has
  passed line 137. \<open>inv_token\<close>: the \<open>sequenceLock\<close> of task \<open>i+1\<close> is closed only
  when task \<open>i\<close> has run its deferred \<open>close(next)\<close>. \<open>inv_order\<close>: while the pipe is
  open, a task that has passed its \<open>select\<close> has a finished predecessor. \<open>inv_copy\<close>:
  a task inside \<open>io.Copy\<close> has a finished predecessor. \<open>inv_out\<close>: every task that has
  bytes in the output has passed its \<open>select\<close>, and all tasks before it are finished.
  \<open>inv_permits\<close>: the buffer of \<open>concurrencyLock\<close> holds one element per task between
  lines 124 and 126, and never more than its capacity.
\<close>

definition inv_chain :: "sched \<Rightarrow> bool" where
  "inv_chain s \<longleftrightarrow> (\<forall>i. pcs s (Suc i) \<noteq> NotStarted \<longrightarrow> spawnedNext (pcs s i))"

definition inv_token :: "sched \<Rightarrow> bool" where
  "inv_token s \<longleftrightarrow> (\<forall>i. Suc i \<in> seqClosed s \<longrightarrow> finished (pcs s i))"

definition inv_order :: "sched \<Rightarrow> bool" where
  "inv_order s \<longleftrightarrow>
     (sink s = None \<longrightarrow> (\<forall>i. pastToken (pcs s (Suc i)) \<longrightarrow> finished (pcs s i)))"

definition inv_copy :: "sched \<Rightarrow> bool" where
  "inv_copy s \<longleftrightarrow> (\<forall>i b e. pcs s (Suc i) = Copying b e \<longrightarrow> finished (pcs s i))"

definition inv_out :: "sched \<Rightarrow> bool" where
  "inv_out s \<longleftrightarrow>
     (\<forall>j\<in>fst ` set (out s). pastToken (pcs s j) \<and> (\<forall>k<j. finished (pcs s k)))"

definition inv_permits :: "remoteFile \<Rightarrow> sched \<Rightarrow> bool" where
  "inv_permits f s \<longleftrightarrow>
     finite {i. pcs s i \<noteq> NotStarted} \<and> permits s = card {i. holding (pcs s i)} \<and>
     permits s \<le> nat (concurrency f)"

definition inv_ctx :: "sched \<Rightarrow> bool" where
  "inv_ctx s \<longleftrightarrow> (\<forall>e. ctxErr s = Some e \<longrightarrow> e = Canceled \<or> e = DeadlineExceeded)"

text \<open>
  The start offset of the \<open>i\<close>-th task of the chain: 0 for the first (line 96), \<open>end+1\<close>
  of its predecessor otherwise (line 137). \<open>inv_starts\<close>: every started task was started
  with that offset, and a task that has passed line 124 did not meet the terminal test.
\<close>

primrec startOf :: "remoteFile \<Rightarrow> nat \<Rightarrow> int" where
  "startOf f 0 = 0"
| "startOf f (Suc i) = getChunk_next f (startOf f i)"

definition inv_starts :: "remoteFile \<Rightarrow> sched \<Rightarrow> bool" where
  "inv_starts f s \<longleftrightarrow>
     (\<forall>i. pcs s i \<noteq> NotStarted \<longrightarrow> starts s i = startOf f i) \<and>
     (\<forall>i. holding (pcs s i) \<longrightarrow> \<not> getChunk_terminal f (startOf f i)) \<and>
     (\<forall>i. pcs s i = Returned \<longrightarrow> \<not> getChunk_terminal f (startOf f i))"

definition inv :: "remoteFile \<Rightarrow> sched \<Rightarrow> bool" where
  "inv f s \<longleftrightarrow>
     inv_chain s \<and> inv_token s \<and> inv_order s \<and> inv_copy s \<and> inv_out s \<and>
     sorted (map fst (out s)) \<and> inv_permits f s \<and> inv_ctx s \<and> inv_starts f s"

text \<open>
  A resolved size and a chunk size for which the arithmetic of \<open>getChunk\<close> does not
  overflow: the size is not negative, the chunk size is at least 1 (as the options
  guarantee), and their sum fits a signed 64-bit integer.
\<close>

definition valid :: "remoteFile \<Rightarrow> bool" where
  "valid f \<longleftrightarrow>
     0 \<le> fsize f \<and> 1 \<le> chunkSize f \<and> fsize f + chunkSize f < 9223372036854775808"

text \<open>
  A transport that serves a fixed content: a range request is answered with status 206
  and exactly the bytes of the inclusive range that exist.
\<close>

definition serve :: "string \<Rightarrow> client" where
  "serve content r =
     (case Range r of
        None \<Rightarrow>
          Inr \<lparr>StatusCode = 200, Status = ''200 OK'', ContentLength = int (length content),
               Header = [], Body = content, BodyErr = None\<rparr>
      | Some (st, en) \<Rightarrow>
          Inr \<lparr>StatusCode = 206, Status = ''206 Partial Content'',
               ContentLength = int (length (take (nat (en + 1 - st)) (drop (nat st) content))),
               Header = [], Body = take (nat (en + 1 - st)) (drop (nat st) content),
               BodyErr = None\<rparr>)"

text \<open>
  The transport of a file serves a content exactly: every range request that the
  scheduler issues (the request of task \<open>i\<close>, when neither task \<open>i\<close> nor a task before
  it is terminal) succeeds with a status in 200-299 and a body that is exactly the bytes
  of the inclusive range \<open>[start, end]\<close> that exist, read without error. Nothing is
  asked of the transport for requests that are never issued.
\<close>

definition exact :: "remoteFile \<Rightarrow> string \<Rightarrow> bool" where
  "exact f content \<longleftrightarrow>
     (\<forall>i. (\<forall>k\<le>i. \<not> getChunk_terminal f (startOf f k)) \<longrightarrow>
        (\<exists>res. client f (getChunk_req f (startOf f i)) = Inr res \<and> \<not> badStatus res \<and>
           Body res = take (nat (getChunk_end f (startOf f i) + 1 - startOf f i))
                        (drop (nat (startOf f i)) content) \<and>
           BodyErr res = None))"

text \<open>
  \<open>copied\<close>: the task has left \<open>io.Copy\<close> or failed. \<open>upto f content i\<close>: the content up
  to the end of chunk \<open>i\<close>. \<open>inv_data\<close>: while the pipe is open the reader has received
  the content up to the chunk being written or last written; after a close with \<open>EOF\<close>
  it has received all of it. \<open>inv_prefix\<close>: what was received is a prefix of the content.
\<close>

fun copied :: "pc \<Rightarrow> bool" where
  "copied CloseNext = True"
| "copied Release = True"
| "copied Returned = True"
| "copied p = False"

definition upto :: "remoteFile \<Rightarrow> string \<Rightarrow> nat \<Rightarrow> string" where
  "upto f content i = take (nat (getChunk_end f (startOf f i) + 1)) content"

definition inv_data :: "remoteFile \<Rightarrow> string \<Rightarrow> sched \<Rightarrow> bool" where
  "inv_data f content s \<longleftrightarrow>
     (\<forall>i r. pcs s i = Fetched r \<longrightarrow> r = client f (getChunk_req f (startOf f i))) \<and>
     (sink s = None \<longrightarrow>
        (\<forall>i b e. pcs s i = Copying b e \<longrightarrow> e = None \<and> map snd (out s) @ b = upto f content i) \<and>
        (\<forall>i. copied (pcs s i) \<and> \<not> pastToken (pcs s (Suc i)) \<longrightarrow>
             map snd (out s) = upto f content i) \<and>
        (\<not> pastToken (pcs s 0) \<longrightarrow> out s = [])) \<and>
     (sink s = Some EOF \<longrightarrow> map snd (out s) = content)"

definition inv_prefix :: "string \<Rightarrow> sched \<Rightarrow> bool" where
  "inv_prefix content s \<longleftrightarrow> (\<exists>n. map snd (out s) = take n content)"

text \<open>
  \<open>boundary f s i\<close>: task \<open>i\<close> has just been started, holds its ordering token, and all
  permits are free. From such a state the tasks can run one after the other.
\<close>

definition boundary :: "remoteFile \<Rightarrow> sched \<Rightarrow> nat \<Rightarrow> bool" where
  "boundary f s i \<longleftrightarrow>
     pcs s i = Entry \<and> starts s i = startOf f i \<and> i \<in> seqClosed s \<and> sink s = None \<and>
     permits s = 0 \<and> \<not> lockClosed s"

text \<open>Sample inputs for the closed instances below.\<close>

definition res0 :: response where
  "res0 = \<lparr>StatusCode = 200, Status = ''200 OK'', ContentLength = 0, Header = [],
            Body = [], BodyErr = None\<rparr>"

definition newReq0 :: "string \<Rightarrow> string \<Rightarrow> error + request" where
  "newReq0 m u = Inr \<lparr>Method = m, URL = u, ReqHeader = [], Range = None\<rparr>"

definition newReq_noHEAD :: "string \<Rightarrow> string \<Rightarrow> error + request" where
  "newReq_noHEAD m u =
     (if m = ''HEAD'' then Inl (External ''bad request'')
      else Inr \<lparr>Method = m, URL = u, ReqHeader = [], Range = None\<rparr>)"

definition f5 :: remoteFile where
  "f5 = file0\<lparr>client := serve ''abcde'', fsize := 5, chunkSize := 2, concurrency := 2\<rparr>"

definition evs_full :: "event list" where
  "evs_full = [Acquire 0, Spawn 0, Acquire 1, Spawn 1, Do 1, Do 0, MainReturn, SelSeq 0,
     CopyWrite 0 1, CopyWrite 0 2, CopyEOF 0, DeferCloseNext 0, SelSeq 1, DeferRelease 0,
     CopyWrite 1 2, CopyEOF 1, DeferCloseNext 1, TermSeq 2, DeferRelease 1, CloseLock 2]"

definition evs_two :: "event list" where
  "evs_two = [Acquire 0, Spawn 0, Acquire 1, Spawn 1]"

text \<open>
  A transport that serves a content as a standard server does: a range that starts at or
  after the end of the content is answered with status 416.
\<close>

definition serve416 :: "string \<Rightarrow> client" where
  "serve416 content r =
     (case Range r of
        None \<Rightarrow> serve content r
      | Some (st, en) \<Rightarrow>
          if int (length content) \<le> st
          then Inr \<lparr>StatusCode = 416, Status = ''416 Requested Range Not Satisfiable'',
                    ContentLength = 0, Header = [], Body = [], BodyErr = None\<rparr>
          else serve content r)"

text \<open>The files \<open>GetContext\<close> returns for that transport and two settings of the options.\<close>

definition g5 :: remoteFile where
  "g5 = \<lparr>client = serve416 ''abcde'',
          req = \<lparr>Method = ''GET'', URL = ''u'', ReqHeader = [], Range = None\<rparr>,
          chunkSize = 2, concurrency = 2, fsize = 5, debug = False\<rparr>"

definition g1 :: remoteFile where
  "g1 = \<lparr>client = serve416 ''abcde'',
          req = \<lparr>Method = ''GET'', URL = ''u'', ReqHeader = [], Range = None\<rparr>,
          chunkSize = 9, concurrency = 1, fsize = 5, debug = False\<rparr>"

text \<open>A probe answer without a length and with a total that is not a number.\<close>

definition probe_abc :: client where
  "probe_abc r = Inr (res0\<lparr>ContentLength := - 1, Header := [(''Range'', ''bytes 0-0/abc'')]\<rparr>)"

definition evs_one :: "event list" where
  "evs_one = [MainReturn, Acquire 0, Spawn 0, Do 0, SelSeq 0, CopyWrite 0 5, CopyEOF 0,
     DeferCloseNext 0, DeferRelease 0, TermSeq 1, CloseLock 1]"

text \<open>
  A transport that answers the range starting at \<open>st500\<close> with status 500, fails on the
  range starting at \<open>stErr\<close>, and serves the content otherwise.
\<close>

definition flaky :: "int \<Rightarrow> int \<Rightarrow> string \<Rightarrow> client" where
  "flaky st500 stErr content r =
     (case Range r of
        None \<Rightarrow> serve content r
      | Some (st, en) \<Rightarrow>
          if st = st500
          then Inr \<lparr>StatusCode = 500, Status = ''500 Internal Server Error'', ContentLength = 0,
                    Header = [], Body = [], BodyErr = None\<rparr>
          else if st = stErr then Inl (External ''connection reset'')
          else serve content r)"

definition f7 :: remoteFile where
  "f7 = file0\<lparr>client := flaky 2 4 ''abcdef'', fsize := 6, chunkSize := 1, concurrency := 3\<rparr>"

definition f8 :: remoteFile where
  "f8 = file0\<lparr>client := flaky (- 1) 4 ''abcdef'', fsize := 6, chunkSize := 1,
              concurrency := 3\<rparr>"

definition evs_fetch :: "event list" where
  "evs_fetch = [Acquire 0, Spawn 0, Acquire 1, Spawn 1, Acquire 2, Spawn 2, Do 0, Do 1, Do 2,
     MainReturn, SelSeq 0, CopyWrite 0 1]"

section \<open>Facts about the machine integers\<close>

lemma wrap64_id: "- 9223372036854775808 \<le> x \<Longrightarrow> x < 9223372036854775808 \<Longrightarrow> wrap64 x = x"
  by (simp add: wrap64_def)

section \<open>Chunk boundaries\<close>

text \<open>
  C2 as stated (ranges [0,5242880], [5242881,10485760], [10485761,12582912]) does not hold:
  with enough fuel to reach the terminal task, the chain of requests for size 12582912 and
  chunk size 5242880 is not that list.
\<close>

theorem chunk_boundaries_counterexample:
  "getChunk_requests (Suc (Suc (Suc (Suc 0)))) (file0\<lparr>fsize := 12582912, chunkSize := 5242880\<rparr>) 0
     \<noteq> Some [(0, 5242880), (5242881, 10485760), (10485761, 12582912)]"
  by (simp add: getChunk_terminal_def getChunk_end_def getChunk_next_def wrap64_def)

text \<open>
  C2, amended: for size 12582912 and chunk size 5242880 exactly three range requests are
  issued, with the inclusive ranges [0,5242880], [5242881,10485761] and
  [10485762,12582912] (any fuel of at least four reaches the terminal task); these are the
  ranges of tasks 0, 1 and 2 of the scheduler, and task 3, started at 12582913, is
  terminal; each range is [start, start+chunkSize] clipped to the resolved size.
\<close>

theorem chunk_boundaries:
  "getChunk_requests (Suc (Suc (Suc (Suc n)))) (f\<lparr>fsize := 12582912, chunkSize := 5242880\<rparr>) 0
     = Some [(0, 5242880), (5242881, 10485761), (10485762, 12582912)] \<and>
   map (startOf (f\<lparr>fsize := 12582912, chunkSize := 5242880\<rparr>))
       [0, Suc 0, Suc (Suc 0), Suc (Suc (Suc 0))]
     = [0, 5242881, 10485762, 12582913] \<and>
   getChunk_terminal (f\<lparr>fsize := 12582912, chunkSize := 5242880\<rparr>) 12582913 \<and>
   getChunk_end g start = min (wrap64 (start + chunkSize g)) (fsize g)"
  by (simp add: getChunk_terminal_def getChunk_end_def getChunk_next_def wrap64_def min_def)

section \<open>The unbounded marker\<close>

text \<open>
  C4: with the resolved size -1 the first task, started at offset 0, satisfies the
  terminal test \<open>start == f.size+1\<close>, so the chain of range requests is empty: the
  task cannot enter its fetch, and once \<open>GetContext\<close> has returned it closes the sink
  with \<open>EOF\<close> with nothing delivered. (The claim says the terminal branch is not taken.)
\<close>

theorem unbounded_terminal_at_start:
  "getChunk_terminal (f\<lparr>fsize := - 1\<rparr>) 0 \<and>
   getChunk_requests (Suc n) (f\<lparr>fsize := - 1\<rparr>) 0 = Some [] \<and>
   exec (f\<lparr>fsize := - 1\<rparr>) (Acquire 0) init = None \<and>
   map_option sink (run (f\<lparr>fsize := - 1\<rparr>) [MainReturn, TermSeq 0] init) = Some (Some EOF) \<and>
   map_option out (run (f\<lparr>fsize := - 1\<rparr>) [MainReturn, TermSeq 0] init) = Some []"
  by (simp add: getChunk_terminal_def wrap64_def init_def CloseWithError_def)

section \<open>Size resolution\<close>

lemma Split_acc_nosep: "sep \<notin> set t \<Longrightarrow> Split_acc sep acc t = [rev acc @ t]"
  by (induction t arbitrary: acc) auto

lemma Split_acc_nonempty: "Split_acc sep acc s \<noteq> []"
  by (induction s arbitrary: acc) auto

lemma Split_acc_last: "sep \<notin> set t \<Longrightarrow> last (Split_acc sep acc (pre @ sep # t)) = t"
  by (induction pre arbitrary: acc) (auto simp: Split_acc_nosep Split_acc_nonempty)

lemma decimal_step_ge: "n \<le> foldl (\<lambda>n c. n * 10 + digitVal c) n s"
proof (induction s arbitrary: n)
  case Nil
  show ?case by simp
next
  case (Cons c cs)
  have "n \<le> n * 10 + digitVal c" by simp
  also have "\<dots> \<le> foldl (\<lambda>n c. n * 10 + digitVal c) (n * 10 + digitVal c) cs"
    by (rule Cons.IH)
  finally show ?case by simp
qed

lemma ParseUint_loop_digits:
  "\<forall>c\<in>set s. isDigit c \<Longrightarrow> foldl (\<lambda>n c. n * 10 + digitVal c) n s \<le> 18446744073709551615
     \<Longrightarrow> ParseUint_loop n s = Inr (foldl (\<lambda>n c. n * 10 + digitVal c) n s)"
proof (induction s arbitrary: n)
  case Nil
  show ?case by simp
next
  case (Cons c cs)
  have "n * 10 + digitVal c \<le> foldl (\<lambda>n c. n * 10 + digitVal c) (n * 10 + digitVal c) cs"
    by (rule decimal_step_ge)
  with Cons.prems(2) have "n * 10 + digitVal c \<le> 18446744073709551615" by simp
  with Cons show ?case by simp
qed

lemma Atoi_decimal:
  assumes "s \<noteq> []" and "\<forall>c\<in>set s. isDigit c" and "decimal s < 9223372036854775808"
  shows "Atoi s = Inr (int (decimal s))"
proof -
  from assms(1,2) have "isDigit (hd s)" by (cases s) auto
  then have sign: "hd s \<noteq> CHR ''+''" "hd s \<noteq> CHR ''-''"
    by (auto simp: isDigit_def)
  from assms(3) have "foldl (\<lambda>n c. n * 10 + digitVal c) 0 s \<le> 18446744073709551615"
    by (simp add: decimal_def)
  with assms(2) have "ParseUint_loop 0 s = Inr (decimal s)"
    unfolding decimal_def by (rule ParseUint_loop_digits)
  with assms(1,3) sign show ?thesis
    by (simp add: Atoi_def)
qed

text \<open>
  C3 as stated does not hold for every probe response. A response that reports the
  explicit length 0 (and carries no range header) does not resolve to size 0: the code
  takes the header branch and fails in \<open>Atoi\<close>. A response whose length is unknown
  (\<open>ContentLength\<close> -1) and whose header is \<open>bytes 0-0/100\<close> resolves to -1, not to 100.
\<close>

theorem size_resolution_counterexample:
  "ContentLength res0 = 0 \<and>
   GetContext_size res0 = Inl (NumError ''Atoi'' [] ErrSyntax) \<and>
   GetContext_size (res0\<lparr>ContentLength := - 1, Header := [(''Range'', ''bytes 0-0/100'')]\<rparr>)
     = Inr (- 1)"
  by (simp add: GetContext_size_def res0_def Header_Get_def Split_def Atoi_def)

text \<open>
  C3, amended: if the probe response reports a positive total length, the resolved size
  equals it. If it reports the length 0, the text after the last \<open>/\<close> of the range header
  decides: the token \<open>*\<close> gives -1, a non-empty string of decimal digits whose value fits
  a 64-bit \<open>int\<close> gives that value.
\<close>

theorem size_resolution:
  "(0 < ContentLength res \<longrightarrow> GetContext_size res = Inr (ContentLength res)) \<and>
   (ContentLength res = 0 \<and> Header_Get (Header res) ''Range'' = pre @ CHR ''/'' # tot \<and>
      CHR ''/'' \<notin> set tot \<longrightarrow>
      (tot = ''*'' \<longrightarrow> GetContext_size res = Inr (- 1)) \<and>
      (tot \<noteq> [] \<and> (\<forall>c\<in>set tot. isDigit c) \<and> decimal tot < 9223372036854775808 \<longrightarrow>
         GetContext_size res = Inr (int (decimal tot))))"
proof -
  have star: "\<forall>c\<in>set tot. isDigit c \<Longrightarrow> tot \<noteq> ''*''"
    by (auto simp: isDigit_def)
  show ?thesis
    by (auto simp: GetContext_size_def Split_def Split_acc_last Atoi_decimal star)
qed

theorem size_resolution_witness:
  "GetContext_size (res0\<lparr>ContentLength := 12582912\<rparr>) = Inr 12582912 \<and>
   GetContext_size (res0\<lparr>Header := [(''Range'', ''bytes 0-0/12582912'')]\<rparr>) = Inr 12582912 \<and>
   GetContext_size (res0\<lparr>Header := [(''Range'', ''bytes 0-0/*'')]\<rparr>) = Inr (- 1)"
  using size_resolution [of "res0\<lparr>ContentLength := 12582912\<rparr>"]
    size_resolution [of "res0\<lparr>Header := [(''Range'', ''bytes 0-0/12582912'')]\<rparr>"
      "''bytes 0-0''" "''12582912''"]
    size_resolution [of "res0\<lparr>Header := [(''Range'', ''bytes 0-0/*'')]\<rparr>" "''bytes 0-0''" "''*''"]
  by (simp add: res0_def Header_Get_def isDigit_def decimal_def digitVal_def)

section \<open>Failure of the probe\<close>

text \<open>
  C9 as stated does not hold for every probe: when the probe reports no length
  (\<open>ContentLength\<close> -1) and the total of its range header is not a number, the header is
  never parsed; \<open>GetContext\<close> returns a reader with the resolved size -1 and starts the
  first task.
\<close>

theorem probe_failure_counterexample:
  "GetContext newReq0 probe_abc ''u'' []
     = (Inr \<lparr>client = probe_abc,
              req = \<lparr>Method = ''GET'', URL = ''u'', ReqHeader = [], Range = None\<rparr>,
              chunkSize = 5242880, concurrency = 5, fsize = - 1, debug = False\<rparr>, [0])"
  by (simp add: GetContext_def GetContext_size_def newReq0_def probe_abc_def res0_def
      DefaultChunkSize_def DefaultConcurrency_def)

text \<open>
  C9, amended: once the request template is built and the options are applied, a probe
  that cannot be constructed, a transport error of the probe, and, when the probe reports
  the length 0, a total that is not \<open>*\<close> and that \<open>Atoi\<close> rejects each make
  \<open>GetContext\<close> return an error and no reader, with no \<open>getChunk\<close> task started.
  Whenever \<open>GetContext\<close> returns an error, no task has been started.
\<close>

theorem probe_failure:
  assumes "newReq ''GET'' url = Inr rq"
    and "Options opts \<lparr>client = dc, req = rq, chunkSize = DefaultChunkSize,
                        concurrency = DefaultConcurrency, fsize = 0, debug = False\<rparr> = (None, file)"
  shows "(newReq ''HEAD'' url = Inl e \<longrightarrow> GetContext newReq dc url opts = (Inl e, [])) \<and>
         (newReq ''HEAD'' url = Inr sizeReq \<and>
          client file (sizeReq\<lparr>ReqHeader := ReqHeader (req file)\<rparr>) = Inl e \<longrightarrow>
            GetContext newReq dc url opts = (Inl (Wrapped ''unable to get content range'' e), [])) \<and>
         (newReq ''HEAD'' url = Inr sizeReq \<and>
          client file (sizeReq\<lparr>ReqHeader := ReqHeader (req file)\<rparr>) = Inr res \<and>
          ContentLength res = 0 \<and>
          last (Split (Header_Get (Header res) ''Range'') CHR ''/'') \<noteq> ''*'' \<and>
          Atoi (last (Split (Header_Get (Header res) ''Range'') CHR ''/'')) = Inl e \<longrightarrow>
            GetContext newReq dc url opts = (Inl e, [])) \<and>
         (\<forall>err. fst (GetContext newReq dc url opts) = Inl err \<longrightarrow>
            snd (GetContext newReq dc url opts) = [])"
  using assms
  by (auto simp: GetContext_def GetContext_size_def Let_def split: sum.splits)

theorem probe_failure_witness:
  "GetContext newReq_noHEAD (\<lambda>r. Inr res0) ''u'' [WithConcurrency 2]
     = (Inl (External ''bad request''), []) \<and>
   GetContext newReq0 (\<lambda>r. Inl (External ''refused'')) ''u'' [WithConcurrency 2]
     = (Inl (Wrapped ''unable to get content range'' (External ''refused'')), []) \<and>
   GetContext newReq0 (\<lambda>r. Inr (res0\<lparr>Header := [(''Range'', ''bytes 0-0/abc'')]\<rparr>)) ''u''
       [WithConcurrency 2]
     = (Inl (NumError ''Atoi'' ''abc'' ErrSyntax), [])"
  using
    probe_failure [of newReq_noHEAD "''u''"
      "\<lparr>Method = ''GET'', URL = ''u'', ReqHeader = [], Range = None\<rparr>" "[WithConcurrency 2]"
      "\<lambda>r. Inr res0" _ "External ''bad request''"]
    probe_failure [of newReq0 "''u''"
      "\<lparr>Method = ''GET'', URL = ''u'', ReqHeader = [], Range = None\<rparr>" "[WithConcurrency 2]"
      "\<lambda>r. Inl (External ''refused'')" _ "External ''refused''"
      "\<lparr>Method = ''HEAD'', URL = ''u'', ReqHeader = [], Range = None\<rparr>"]
    probe_failure [of newReq0 "''u''"
      "\<lparr>Method = ''GET'', URL = ''u'', ReqHeader = [], Range = None\<rparr>" "[WithConcurrency 2]"
      "\<lambda>r. Inr (res0\<lparr>Header := [(''Range'', ''bytes 0-0/abc'')]\<rparr>)" _
      "NumError ''Atoi'' ''abc'' ErrSyntax"
      "\<lparr>Method = ''HEAD'', URL = ''u'', ReqHeader = [], Range = None\<rparr>"
      "res0\<lparr>Header := [(''Range'', ''bytes 0-0/abc'')]\<rparr>"]
  by (simp add: newReq0_def newReq_noHEAD_def WithConcurrency_def res0_def Header_Get_def
      Split_def Atoi_def isDigit_def)

section \<open>Invariants of the scheduler\<close>

lemma chainI: "inv_chain s \<Longrightarrow> pcs s (Suc i) \<noteq> NotStarted \<Longrightarrow> spawnedNext (pcs s i)"
  by (simp add: inv_chain_def)

lemma chainD: "inv_chain s \<Longrightarrow> \<not> spawnedNext (pcs s i) \<Longrightarrow> pcs s (Suc i) = NotStarted"
  by (auto simp: inv_chain_def)

lemma tokenD: "inv_token s \<Longrightarrow> Suc i \<in> seqClosed s \<Longrightarrow> finished (pcs s i)"
  by (simp add: inv_token_def)

lemma orderD:
  "inv_order s \<Longrightarrow> sink s = None \<Longrightarrow> pastToken (pcs s (Suc i)) \<Longrightarrow> finished (pcs s i)"
  by (simp add: inv_order_def)

lemma finished_pastToken: "finished p \<Longrightarrow> pastToken p"
  by (cases p) auto

lemma inv_chain_exec:
  assumes "inv_chain s" and "exec f ev s = Some s'"
  shows "inv_chain s'"
  unfolding inv_chain_def using assms(2)
  by (cases ev)
    (auto split: if_splits pc.splits sum.splits option.splits
      simp: chainD [OF assms(1)] intro!: chainI [OF assms(1)])

lemma inv_token_exec:
  assumes "inv_chain s" and "inv_token s" and "exec f ev s = Some s'"
  shows "inv_token s'"
  unfolding inv_token_def using assms(3)
  by (cases ev)
    (auto split: if_splits pc.splits sum.splits option.splits
      simp: chainD [OF assms(1)] dest!: tokenD [OF assms(2)])

lemma sink_stays_closed:
  "exec f ev s = Some s' \<Longrightarrow> sink s = Some e \<Longrightarrow> sink s' = Some e \<and> out s' = out s"
  by (cases ev)
    (auto split: if_splits pc.splits sum.splits option.splits simp: CloseWithError_def)

lemma inv_order_exec:
  assumes "inv_chain s" and "inv_token s" and "inv_order s" and "exec f ev s = Some s'"
  shows "inv_order s'"
proof (cases "sink s")
  case (Some e)
  with assms(4) have "sink s' = Some e" by (simp add: sink_stays_closed)
  then show ?thesis by (simp add: inv_order_def)
next
  case None
  with assms(3) have O: "\<And>i. pastToken (pcs s (Suc i)) \<Longrightarrow> finished (pcs s i)"
    by (simp add: inv_order_def)
  then have O': "\<And>i. pastToken (pcs s (Suc i)) \<Longrightarrow> finished (pcs s i) = True"
    by simp
  show ?thesis
    unfolding inv_order_def using assms(4) None
    by (cases ev)
      (auto split: if_splits pc.splits sum.splits option.splits
        simp: chainD [OF assms(1)] CloseWithError_def
        simp: O' dest!: tokenD [OF assms(2)] O)
qed

lemma order_all:
  assumes "inv_order s" and "sink s = None"
  shows "pastToken (pcs s j) \<Longrightarrow> k < j \<Longrightarrow> finished (pcs s k)"
proof (induction j)
  case 0
  then show ?case by simp
next
  case (Suc j)
  from assms Suc.prems(1) have fin: "finished (pcs s j)" by (rule orderD)
  show ?case
  proof (cases "k = j")
    case True
    with fin show ?thesis by simp
  next
    case False
    with Suc.prems(2) have "k < j" by simp
    with fin Suc.IH show ?thesis by (simp add: finished_pastToken)
  qed
qed

lemma finished_stable:
  assumes "inv_chain s" and "exec f ev s = Some s'" and "finished (pcs s k)"
  shows "finished (pcs s' k)"
  using assms(2,3)
  by (cases ev)
    (auto split: if_splits pc.splits sum.splits option.splits simp: chainD [OF assms(1)])

lemma pastToken_stable:
  assumes "inv_chain s" and "exec f ev s = Some s'" and "pastToken (pcs s k)"
  shows "pastToken (pcs s' k)"
  using assms(2,3)
  by (cases ev)
    (auto split: if_splits pc.splits sum.splits option.splits simp: chainD [OF assms(1)])

lemma inv_copy_exec:
  assumes "inv_chain s" and "inv_token s" and "inv_copy s" and "exec f ev s = Some s'"
  shows "inv_copy s'"
proof -
  have C: "\<And>i b e. pcs s (Suc i) = Copying b e \<Longrightarrow> finished (pcs s i) = True"
    using assms(3) by (simp add: inv_copy_def)
  have Cd: "\<And>i b e. pcs s (Suc i) = Copying b e \<Longrightarrow> finished (pcs s i)"
    using assms(3) by (simp add: inv_copy_def)
  show ?thesis
    unfolding inv_copy_def using assms(4)
    by (cases ev)
      (auto split: if_splits pc.splits sum.splits option.splits
        simp: chainD [OF assms(1)] C dest!: tokenD [OF assms(2)] Cd)
qed

lemma out_cases:
  assumes "exec f ev s = Some s'"
  shows "out s' = out s \<or>
    (\<exists>i n rest berr. ev = CopyWrite i n \<and> pcs s i = Copying rest berr \<and> sink s = None \<and>
       0 < n \<and> n \<le> length rest \<and> out s' = out s @ map (Pair i) (take n rest))"
  using assms
  by (cases ev) (auto split: if_splits pc.splits sum.splits option.splits)

lemma inv_out_exec:
  assumes "inv_chain s" and "inv_order s" and "inv_out s" and "exec f ev s = Some s'"
  shows "inv_out s'"
proof -
  have old: "\<forall>j\<in>fst ` set (out s). pastToken (pcs s' j) \<and> (\<forall>k<j. finished (pcs s' k))"
    using assms(3) finished_stable [OF assms(1) assms(4)] pastToken_stable [OF assms(1) assms(4)]
    by (auto simp: inv_out_def)
  from out_cases [OF assms(4)] show ?thesis
  proof
    assume "out s' = out s"
    with old show ?thesis by (simp add: inv_out_def)
  next
    assume "\<exists>i n rest berr. ev = CopyWrite i n \<and> pcs s i = Copying rest berr \<and> sink s = None \<and>
       0 < n \<and> n \<le> length rest \<and> out s' = out s @ map (Pair i) (take n rest)"
    then obtain i n rest berr where w: "pcs s i = Copying rest berr" "sink s = None"
      "out s' = out s @ map (Pair i) (take n rest)" by blast
    have "\<forall>k<i. finished (pcs s k)"
      using order_all [OF assms(2) w(2), of i] w(1) by simp
    then have fin: "\<forall>k<i. finished (pcs s' k)"
      using finished_stable [OF assms(1) assms(4)] by blast
    have "pastToken (pcs s' i)"
      using pastToken_stable [OF assms(1) assms(4), of i] w(1) by simp
    with fin old w(3) show ?thesis by (auto simp: inv_out_def)
  qed
qed

lemma sorted_out_exec:
  assumes "inv_out s" and "sorted (map fst (out s))" and "exec f ev s = Some s'"
  shows "sorted (map fst (out s'))"
proof -
  from out_cases [OF assms(3)] show ?thesis
  proof
    assume "out s' = out s"
    with assms(2) show ?thesis by simp
  next
    assume "\<exists>i n rest berr. ev = CopyWrite i n \<and> pcs s i = Copying rest berr \<and> sink s = None \<and>
       0 < n \<and> n \<le> length rest \<and> out s' = out s @ map (Pair i) (take n rest)"
    then obtain i n rest berr where w: "pcs s i = Copying rest berr"
      "out s' = out s @ map (Pair i) (take n rest)" by blast
    have le: "\<forall>j\<in>fst ` set (out s). j \<le> i"
    proof
      fix j assume j: "j \<in> fst ` set (out s)"
      show "j \<le> i"
      proof (rule ccontr)
        assume "\<not> j \<le> i"
        then have "i < j" by simp
        with assms(1) j have "finished (pcs s i)" by (auto simp: inv_out_def)
        with w(1) show False by simp
      qed
    qed
    have "sorted (map fst (out s) @ map fst (map (Pair i) (take n rest)))"
      unfolding sorted_append using assms(2) le by (auto simp: sorted_iff_nth_mono)
    with w(2) show ?thesis by simp
  qed
qed

lemma holding_upd:
  "{j. holding ((p(i := X)) j)} =
     (if holding X then insert i {j. holding (p j)} else {j. holding (p j)} - {i})"
  by auto

lemma started_upd: "{j. (p(i := X)) j \<noteq> NotStarted} \<subseteq> insert i {j. p j \<noteq> NotStarted}"
  by auto

lemma finite_started_upd:
  "finite {j. p j \<noteq> NotStarted} \<Longrightarrow> finite {j. (p(i := X)) j \<noteq> NotStarted}"
  by (rule finite_subset [OF started_upd]) simp

lemma finite_holding: "finite {j. p j \<noteq> NotStarted} \<Longrightarrow> finite {j. holding (p j)}"
  by (rule finite_subset [of _ "{j. p j \<noteq> NotStarted}"]) auto

lemma card_holding_upd:
  assumes "finite {j. p j \<noteq> NotStarted}"
  shows "card {j. holding ((p(i := X)) j)} =
     (if holding X
      then (if holding (p i) then card {j. holding (p j)} else Suc (card {j. holding (p j)}))
      else (if holding (p i) then card {j. holding (p j)} - 1 else card {j. holding (p j)}))"
proof -
  have fin: "finite {j. holding (p j)}" using assms by (rule finite_holding)
  show ?thesis
    unfolding holding_upd using fin
    by (auto simp: card_insert_if insert_absorb)
qed

lemma card_holding_pos:
  "finite {j. p j \<noteq> NotStarted} \<Longrightarrow> holding (p i) \<Longrightarrow> 0 < card {j. holding (p j)}"
  using finite_holding [of p] by (auto simp: card_gt_0_iff)

lemma inv_permits_exec:
  assumes "inv_chain s" and "inv_permits f s" and "exec f ev s = Some s'"
  shows "inv_permits f s'"
proof -
  have fin: "finite {i. pcs s i \<noteq> NotStarted}"
    and eq: "permits s = card {i. holding (pcs s i)}"
    and le: "permits s \<le> nat (concurrency f)"
    using assms(2) by (simp_all add: inv_permits_def)
  note pos = card_holding_pos [OF fin]
  show ?thesis
    unfolding inv_permits_def using assms(3) eq le
    by (cases ev)
      (auto split: if_splits pc.splits sum.splits option.splits
        simp: chainD [OF assms(1)] card_holding_upd fin finite_started_upd fun_upd_other
        simp del: fun_upd_apply dest: pos)
qed

lemma inv_ctx_exec:
  assumes "inv_ctx s" and "exec f ev s = Some s'"
  shows "inv_ctx s'"
  using assms unfolding inv_ctx_def
  by (cases ev) (auto split: if_splits pc.splits sum.splits option.splits)

lemma inv_starts_exec:
  assumes "inv_chain s" and "inv_starts f s" and "exec f ev s = Some s'"
  shows "inv_starts f s'"
proof -
  have A: "\<And>i. pcs s i \<noteq> NotStarted \<Longrightarrow> starts s i = startOf f i"
    and B: "\<And>i. holding (pcs s i) \<Longrightarrow> getChunk_terminal f (startOf f i) = False"
    and B2: "\<And>i. pcs s i = Returned \<Longrightarrow> getChunk_terminal f (startOf f i) = False"
    using assms(2) by (auto simp: inv_starts_def)
  have a: "\<forall>i. pcs s' i \<noteq> NotStarted \<longrightarrow> starts s' i = startOf f i"
    using assms(3)
    by (cases ev)
      (auto split: if_splits pc.splits sum.splits option.splits
        simp: chainD [OF assms(1)] A)
  have b: "\<forall>i. holding (pcs s' i) \<longrightarrow> \<not> getChunk_terminal f (startOf f i)"
    using assms(3)
    by (cases ev)
      (auto split: if_splits pc.splits sum.splits option.splits
        simp: chainD [OF assms(1)] A B)
  have c: "\<forall>i. pcs s' i = Returned \<longrightarrow> \<not> getChunk_terminal f (startOf f i)"
    using assms(3)
    by (cases ev)
      (auto split: if_splits pc.splits sum.splits option.splits
        simp: chainD [OF assms(1)] A B B2)
  from a b c show ?thesis by (simp add: inv_starts_def)
qed

lemma inv_init: "inv f init"
proof -
  have started: "{i. ((\<lambda>i. NotStarted)(0 := Entry)) i \<noteq> NotStarted} = {0::nat}"
    by auto
  have hold: "{i::nat. holding (((\<lambda>i. NotStarted)(0 := Entry)) i)} = {}"
    by auto
  show ?thesis
    unfolding inv_def inv_chain_def inv_token_def inv_order_def inv_copy_def inv_out_def
      inv_permits_def inv_ctx_def inv_starts_def init_def
    using started hold by (simp del: fun_upd_apply) simp
qed

lemma inv_exec:
  assumes "inv f s" and "exec f ev s = Some s'"
  shows "inv f s'"
  using assms unfolding inv_def
  by (auto intro: inv_chain_exec inv_token_exec inv_order_exec inv_copy_exec inv_out_exec
      sorted_out_exec inv_permits_exec inv_ctx_exec inv_starts_exec)

lemma inv_run: "inv f s \<Longrightarrow> run f evs s = Some s' \<Longrightarrow> inv f s'"
proof (induction evs arbitrary: s)
  case Nil
  then show ?case by simp
next
  case (Cons ev evs)
  then show ?case
    by (auto split: option.splits dest: inv_exec)
qed

lemma inv_reachable: "run f evs init = Some s \<Longrightarrow> inv f s"
  using inv_init by (rule inv_run)

lemma spawnedNext_started: "spawnedNext p \<Longrightarrow> p \<noteq> NotStarted"
  by (cases p) auto

lemma spawnedNext_cases: "spawnedNext p \<Longrightarrow> holding p \<or> p = Returned"
  by (cases p) auto

lemma chain_all:
  assumes "inv_chain s"
  shows "pcs s j \<noteq> NotStarted \<Longrightarrow> k < j \<Longrightarrow> spawnedNext (pcs s k)"
proof (induction j)
  case 0
  then show ?case by simp
next
  case (Suc j)
  from assms Suc.prems(1) have sp: "spawnedNext (pcs s j)" by (rule chainI)
  show ?case
  proof (cases "k = j")
    case True
    with sp show ?thesis by simp
  next
    case False
    with Suc.prems(2) have "k < j" by simp
    with sp Suc.IH show ?thesis by (simp add: spawnedNext_started)
  qed
qed

lemma started_nonterminal:
  assumes "inv f s" and "pcs s j \<noteq> NotStarted" and "k < j"
  shows "\<not> getChunk_terminal f (startOf f k)"
proof -
  from assms have "spawnedNext (pcs s k)" by (auto simp: inv_def intro: chain_all)
  then have "holding (pcs s k) \<or> pcs s k = Returned" by (rule spawnedNext_cases)
  with assms(1) show ?thesis by (auto simp: inv_def inv_starts_def)
qed

lemma valid_terminal:
  "valid f \<Longrightarrow> 0 \<le> st \<Longrightarrow> st \<le> fsize f + 1 \<Longrightarrow> getChunk_terminal f st \<longleftrightarrow> st = fsize f + 1"
  by (simp add: valid_def getChunk_terminal_def wrap64_id)

lemma valid_end:
  "valid f \<Longrightarrow> 0 \<le> st \<Longrightarrow> st \<le> fsize f \<Longrightarrow>
     getChunk_end f st = min (st + chunkSize f) (fsize f)"
  by (simp add: valid_def getChunk_end_def wrap64_id min_def)

lemma valid_end_bounds:
  assumes "valid f" and "0 \<le> st" and "st \<le> fsize f"
  shows "st \<le> getChunk_end f st \<and> getChunk_end f st \<le> fsize f"
  using assms valid_end [OF assms] by (simp add: valid_def min_def)

lemma valid_next:
  assumes "valid f" and "0 \<le> st" and "st \<le> fsize f"
  shows "getChunk_next f st = getChunk_end f st + 1"
  using valid_end_bounds [OF assms] assms(1,2)
  by (simp add: getChunk_next_def valid_def wrap64_id)

lemma startOf_bounds:
  assumes "valid f"
  shows "(\<forall>k<i. \<not> getChunk_terminal f (startOf f k)) \<Longrightarrow>
         0 \<le> startOf f i \<and> startOf f i \<le> fsize f + 1"
proof (induction i)
  case 0
  with assms show ?case by (simp add: valid_def)
next
  case (Suc i)
  then have b: "0 \<le> startOf f i" "startOf f i \<le> fsize f + 1" by simp_all
  from Suc.prems have "\<not> getChunk_terminal f (startOf f i)" by simp
  with b have le: "startOf f i \<le> fsize f"
    using valid_terminal [OF assms b] by simp
  show ?case
    using valid_next [OF assms b(1) le] valid_end_bounds [OF assms b(1) le] b(1) by simp
qed

lemma startOf_step:
  assumes "valid f" and "\<forall>k<Suc i. \<not> getChunk_terminal f (startOf f k)"
  shows "startOf f i \<le> fsize f \<and> 0 \<le> startOf f i \<and>
         startOf f (Suc i) = getChunk_end f (startOf f i) + 1 \<and>
         startOf f i < startOf f (Suc i)"
proof -
  from assms(2) have "\<forall>k<i. \<not> getChunk_terminal f (startOf f k)" by simp
  then have b: "0 \<le> startOf f i" "startOf f i \<le> fsize f + 1"
    using startOf_bounds [OF assms(1)] by simp_all
  from assms(2) have "\<not> getChunk_terminal f (startOf f i)" by simp
  with b have le: "startOf f i \<le> fsize f"
    using valid_terminal [OF assms(1) b] by simp
  show ?thesis
    using valid_next [OF assms(1) b(1) le] valid_end_bounds [OF assms(1) b(1) le] b(1) le by simp
qed



section \<open>The data delivered to the reader\<close>

lemma data_fetched_exec:
  assumes "inv f s" and "\<forall>i r. pcs s i = Fetched r \<longrightarrow> r = client f (getChunk_req f (startOf f i))"
    and "exec f ev s = Some s'"
  shows "\<forall>i r. pcs s' i = Fetched r \<longrightarrow> r = client f (getChunk_req f (startOf f i))"
proof -
  have ch: "inv_chain s" and st: "inv_starts f s" using assms(1) by (simp_all add: inv_def)
  have A: "\<And>i. pcs s i \<noteq> NotStarted \<Longrightarrow> starts s i = startOf f i"
    using st by (auto simp: inv_starts_def)
  have F: "\<And>i r. pcs s i = Fetched r \<Longrightarrow> r = client f (getChunk_req f (startOf f i))"
    using assms(2) by simp
  show ?thesis
    using assms(3)
    by (cases ev)
      (auto split: if_splits pc.splits sum.splits option.splits
        simp: chainD [OF ch] A dest: F)
qed


lemma holding_nonterminal:
  assumes "inv f s" and "holding (pcs s i) \<or> pcs s i = Returned"
  shows "\<forall>k<Suc i. \<not> getChunk_terminal f (startOf f k)"
proof -
  from assms(2) have started: "pcs s i \<noteq> NotStarted" by auto
  have "\<not> getChunk_terminal f (startOf f i)"
    using assms by (auto simp: inv_def inv_starts_def)
  then show ?thesis
    using started_nonterminal [OF assms(1) started] by (auto simp: less_Suc_eq)
qed

lemma exactD:
  assumes "exact f content" and "\<forall>k<Suc i. \<not> getChunk_terminal f (startOf f k)"
  shows "\<exists>res. client f (getChunk_req f (startOf f i)) = Inr res \<and> \<not> badStatus res \<and>
           Body res = take (nat (getChunk_end f (startOf f i) + 1 - startOf f i))
                        (drop (nat (startOf f i)) content) \<and>
           BodyErr res = None"
proof -
  from assms(2) have "\<forall>k\<le>i. \<not> getChunk_terminal f (startOf f k)"
    by (simp add: less_Suc_eq_le)
  with assms(1) show ?thesis unfolding exact_def by blast
qed

lemma holding_bounds:
  assumes "valid f" and "inv f s" and "holding (pcs s i) \<or> pcs s i = Returned"
  shows "0 \<le> startOf f i \<and> startOf f i \<le> fsize f \<and>
         startOf f (Suc i) = getChunk_end f (startOf f i) + 1 \<and>
         startOf f i \<le> getChunk_end f (startOf f i) \<and> getChunk_end f (startOf f i) \<le> fsize f"
proof -
  have nt: "\<forall>k<Suc i. \<not> getChunk_terminal f (startOf f k)"
    using assms(2,3) by (rule holding_nonterminal)
  from startOf_step [OF assms(1) nt]
  have b: "startOf f i \<le> fsize f" "0 \<le> startOf f i"
    "startOf f (Suc i) = getChunk_end f (startOf f i) + 1" by simp_all
  with valid_end_bounds [OF assms(1) b(2) b(1)] show ?thesis by simp
qed

lemma fetched_exact:
  assumes "valid f" and "exact f content" and "inv f s" and "inv_data f content s"
    and "pcs s i = Fetched r"
  shows "\<exists>res. r = Inr res \<and> \<not> badStatus res \<and> BodyErr res = None \<and>
           Body res = take (nat (getChunk_end f (startOf f i) + 1 - startOf f i))
                        (drop (nat (startOf f i)) content)"
proof -
  have nt: "\<forall>k<Suc i. \<not> getChunk_terminal f (startOf f k)"
    using holding_nonterminal [OF assms(3), of i] assms(5) by simp
  have "r = client f (getChunk_req f (startOf f i))"
    using assms(4,5) by (simp add: inv_data_def)
  with exactD [OF assms(2) nt] show ?thesis by auto
qed

lemma take_take_drop:
  "0 \<le> st \<Longrightarrow> st \<le> e + 1 \<Longrightarrow>
     take (nat st) xs @ take (nat (e + 1 - st)) (drop (nat st) xs) = take (nat (e + 1)) xs"
proof -
  assume a: "0 \<le> st" "st \<le> e + 1"
  then have "nat (e + 1) = nat st + nat (e + 1 - st)" by simp
  then show ?thesis by (simp add: take_add)
qed

lemma data_eof:
  assumes "valid f" and "length content = nat (fsize f)" and "exact f content"
    and "inv f s" and "inv_data f content s" and "sink s = None"
    and "exec f ev s = Some s'" and "sink s' = Some EOF"
  shows "map snd (out s') = content"
proof -
  have ch: "inv_chain s" and tk: "inv_token s" and cx: "inv_ctx s" and st: "inv_starts f s"
    using assms(4) by (simp_all add: inv_def)
  have A: "\<And>i. pcs s i \<noteq> NotStarted \<Longrightarrow> starts s i = startOf f i"
    using st by (auto simp: inv_starts_def)
  have D2: "\<And>i b e. pcs s i = Copying b e \<Longrightarrow> e = None"
    using assms(5,6) by (simp add: inv_data_def)
  have D3: "\<And>i. copied (pcs s i) \<Longrightarrow> \<not> pastToken (pcs s (Suc i)) \<Longrightarrow>
      map snd (out s) = upto f content i"
    using assms(5,6) by (simp add: inv_data_def)
  have X: "\<And>i e. pcs s i = Fetched (Inl e) \<Longrightarrow> False"
    using fetched_exact [OF assms(1,3,4,5)] by blast
  have C: "\<And>e. ctxErr s = Some e \<Longrightarrow> e \<noteq> EOF"
    using cx by (auto simp: inv_ctx_def)
  have tseq: "\<exists>i. ev = TermSeq i \<and> pcs s i = Entry \<and> getChunk_terminal f (startOf f i) \<and>
      i \<in> seqClosed s \<and> out s' = out s"
    using assms(6,7,8)
    by (cases ev)
      (auto split: if_splits pc.splits sum.splits option.splits
        simp: CloseWithError_def A dest: X D2 C)
  then obtain i where i: "pcs s i = Entry" "getChunk_terminal f (startOf f i)"
    "i \<in> seqClosed s" "out s' = out s" by blast
  show ?thesis
  proof (cases i)
    case 0
    with i(2) assms(1) show ?thesis
      by (simp add: getChunk_terminal_def valid_def wrap64_id)
  next
    case (Suc k)
    with i(3) tk have fin: "finished (pcs s k)" by (simp add: tokenD)
    then have hb: "holding (pcs s k) \<or> pcs s k = Returned" by (cases "pcs s k") auto
    from fin have cp: "copied (pcs s k)" by (cases "pcs s k") auto
    from i(1) Suc have np: "\<not> pastToken (pcs s (Suc k))" by simp
    from holding_bounds [OF assms(1,4) hb]
    have nx: "startOf f (Suc k) = getChunk_end f (startOf f k) + 1"
      and lo: "0 \<le> startOf f (Suc k)" by simp_all
    have "startOf f (Suc k) \<le> fsize f + 1"
      using holding_bounds [OF assms(1,4) hb] by simp
    with valid_terminal [OF assms(1) lo] i(2) Suc
    have "startOf f (Suc k) = fsize f + 1" by simp
    with nx have "upto f content k = take (nat (fsize f + 1)) content"
      by (simp add: upto_def)
    with assms(2) have "upto f content k = content" by simp
    with D3 [OF cp np] i(4) show ?thesis by simp
  qed
qed


lemma copied_pastToken: "copied p \<Longrightarrow> pastToken p"
  by (cases p) auto

lemma finished_copied: "finished p \<Longrightarrow> copied p"
  by (cases p) auto

lemma data_write:
  assumes "inv f s" and "inv_data f content s" and "sink s = None"
    and "pcs s i = Copying rest berr"
  shows "(\<forall>j b e. j \<noteq> i \<longrightarrow> pcs s j \<noteq> Copying b e) \<and>
         (\<forall>j. copied (pcs s j) \<longrightarrow> pastToken (pcs s (Suc j))) \<and>
         pastToken (pcs s 0)"
proof -
  have od: "inv_order s" using assms(1) by (simp add: inv_def)
  note OA = order_all [OF od assms(3)]
  have a: "\<forall>j b e. j \<noteq> i \<longrightarrow> pcs s j \<noteq> Copying b e"
  proof (intro allI impI notI)
    fix j b e assume "j \<noteq> i" and c: "pcs s j = Copying b e"
    then consider "j < i" | "i < j" by (auto simp: neq_iff)
    then show False
    proof cases
      case 1
      with OA [of i j] assms(4) c show False by simp
    next
      case 2
      with OA [of j i] assms(4) c show False by simp
    qed
  qed
  have b: "\<forall>j. copied (pcs s j) \<longrightarrow> pastToken (pcs s (Suc j))"
  proof (intro allI impI)
    fix j assume c: "copied (pcs s j)"
    with assms(4) have ne: "j \<noteq> i" by auto
    show "pastToken (pcs s (Suc j))"
    proof (cases "j < i")
      case True
      show ?thesis
      proof (cases "Suc j = i")
        case True
        with assms(4) show ?thesis by simp
      next
        case False
        with \<open>j < i\<close> have "Suc j < i" by simp
        with OA [of i "Suc j"] assms(4) show ?thesis by (simp add: finished_pastToken)
      qed
    next
      case False
      with ne have "i < j" by simp
      with OA [of j i] c assms(4) show ?thesis by (simp add: copied_pastToken)
    qed
  qed
  have c: "pastToken (pcs s 0)"
  proof (cases i)
    case 0
    with assms(4) show ?thesis by simp
  next
    case (Suc k)
    with OA [of i 0] assms(4) show ?thesis by (simp add: finished_pastToken)
  qed
  from a b c show ?thesis by blast
qed

lemma data_open:
  assumes "valid f" and "exact f content"
    and "inv f s" and "inv_data f content s" and "sink s = None"
    and "exec f ev s = Some s'" and "sink s' = None"
  shows "(\<forall>i b e. pcs s' i = Copying b e \<longrightarrow> e = None \<and> map snd (out s') @ b = upto f content i) \<and>
         (\<forall>i. copied (pcs s' i) \<and> \<not> pastToken (pcs s' (Suc i)) \<longrightarrow>
              map snd (out s') = upto f content i) \<and>
         (\<not> pastToken (pcs s' 0) \<longrightarrow> out s' = [])"
proof -
  have ch: "inv_chain s" and tk: "inv_token s" and od: "inv_order s"
    using assms(3) by (simp_all add: inv_def)
  have D2: "\<And>i b e. pcs s i = Copying b e \<Longrightarrow> e = None \<and> map snd (out s) @ b = upto f content i"
    and D3: "\<And>i. copied (pcs s i) \<Longrightarrow> \<not> pastToken (pcs s (Suc i)) \<Longrightarrow>
      map snd (out s) = upto f content i"
    and D4: "\<not> pastToken (pcs s 0) \<Longrightarrow> out s = []"
    using assms(4,5) by (simp_all add: inv_data_def)
  show ?thesis
  proof (cases ev)
    case (SelSeq i)
    then obtain res where f: "pcs s i = Fetched (Inr res)" "i \<in> seqClosed s"
      and s': "s' = s\<lparr>pcs := (pcs s)(i := Copying (Body res) (BodyErr res))\<rparr>"
      using assms(6) by (auto split: if_splits pc.splits sum.splits)
    from fetched_exact [OF assms(1,2,3,4) f(1)]
    have ex: "BodyErr res = None"
      "Body res = take (nat (getChunk_end f (startOf f i) + 1 - startOf f i))
                        (drop (nat (startOf f i)) content)" by simp_all
    have hb: "0 \<le> startOf f i" "startOf f i \<le> getChunk_end f (startOf f i) + 1"
      using holding_bounds [OF assms(1,3), of i] f(1) by simp_all
    have pre: "map snd (out s) = take (nat (startOf f i)) content"
    proof (cases i)
      case 0
      with D4 f(1) show ?thesis by simp
    next
      case (Suc k)
      with f(2) tk have fin: "finished (pcs s k)" by (simp add: tokenD)
      then have hk: "holding (pcs s k) \<or> pcs s k = Returned" by (cases "pcs s k") auto
      have "map snd (out s) = upto f content k"
        using D3 [of k] fin f(1) Suc by (simp add: finished_copied)
      with holding_bounds [OF assms(1,3) hk] Suc show ?thesis by (simp add: upto_def)
    qed
    have new: "map snd (out s) @ Body res = upto f content i"
      unfolding pre ex(2) upto_def using hb by (rule take_take_drop)
    show ?thesis
      unfolding s' using new ex(1) by (auto dest: D2 D3 D4)
  next
    case (CopyWrite i n)
    then obtain rest berr where c: "pcs s i = Copying rest berr" "n \<le> length rest"
      and s': "s' = s\<lparr>out := out s @ map (Pair i) (take n rest),
                       pcs := (pcs s)(i := Copying (drop n rest) berr)\<rparr>"
      using assms(6) by (auto split: if_splits pc.splits)
    note W = data_write [OF assms(3,4,5) c(1)]
    from D2 [OF c(1)] have "berr = None" "map snd (out s) @ rest = upto f content i" by simp_all
    then have new: "berr = None"
      "map snd (out s @ map (Pair i) (take n rest)) @ drop n rest = upto f content i"
      by (simp_all add: comp_def)
    from W have W1: "\<And>j b e. j \<noteq> i \<Longrightarrow> pcs s j \<noteq> Copying b e"
      and W2: "\<And>j. copied (pcs s j) \<Longrightarrow> pastToken (pcs s (Suc j))"
      and W3: "pastToken (pcs s 0)" by blast+
    show ?thesis
      unfolding s' using new W1 W3 c(1) by (auto dest: W2)
  next
    case (CopyEOF i)
    then obtain berr where c: "pcs s i = Copying [] berr"
      and s': "s' = s\<lparr>pcs := (pcs s)(i := CloseNext)\<rparr>"
      using assms(6) by (auto split: if_splits pc.splits)
    from D2 [OF c] have new: "map snd (out s) = upto f content i" by simp
    from data_write [OF assms(3,4,5) c]
    have W1: "\<And>j b e. j \<noteq> i \<Longrightarrow> pcs s j \<noteq> Copying b e"
      and W2: "\<And>j. copied (pcs s j) \<Longrightarrow> pastToken (pcs s (Suc j))"
      and W3: "pastToken (pcs s 0)" by blast+
    show ?thesis
      unfolding s' using new W1 W3 by (auto dest: W2)
  qed (insert assms(6,7) assms(5), auto split: if_splits pc.splits sum.splits option.splits
        simp: chainD [OF ch] CloseWithError_def dest: D2 intro!: D3 D4)
qed


lemma inv_prefix_exec:
  assumes "inv_data f content s" and "inv_prefix content s" and "exec f ev s = Some s'"
  shows "inv_prefix content s'"
proof -
  from assms(2) obtain n where n: "map snd (out s) = take n content"
    by (auto simp: inv_prefix_def)
  from out_cases [OF assms(3)] show ?thesis
  proof
    assume "out s' = out s"
    with n show ?thesis by (auto simp: inv_prefix_def)
  next
    assume "\<exists>i n rest berr. ev = CopyWrite i n \<and> pcs s i = Copying rest berr \<and> sink s = None \<and>
       0 < n \<and> n \<le> length rest \<and> out s' = out s @ map (Pair i) (take n rest)"
    then obtain i m rest berr where w: "pcs s i = Copying rest berr" "sink s = None"
      "out s' = out s @ map (Pair i) (take m rest)" by blast
    from assms(1) w(1,2) have "map snd (out s) @ rest = upto f content i"
      by (simp add: inv_data_def)
    then have k: "map snd (out s) @ rest = take (nat (getChunk_end f (startOf f i) + 1)) content"
      by (simp add: upto_def)
    have "map snd (out s') = map snd (out s) @ take m rest"
      using w(3) by (simp add: comp_def)
    also have "\<dots> = take (length (out s) + m) (map snd (out s) @ rest)"
      by simp
    also have "\<dots> = take (min (length (out s) + m) (nat (getChunk_end f (startOf f i) + 1))) content"
      unfolding k by (simp only: take_take)
    finally show ?thesis unfolding inv_prefix_def by (rule exI)
  qed
qed

lemma inv_data_exec:
  assumes "valid f" and "length content = nat (fsize f)" and "exact f content"
    and "inv f s" and "inv_data f content s" and "exec f ev s = Some s'"
  shows "inv_data f content s'"
proof -
  have old1: "\<forall>i r. pcs s i = Fetched r \<longrightarrow> r = client f (getChunk_req f (startOf f i))"
    using assms(5) unfolding inv_data_def by (rule conjunct1)
  have d1: "\<forall>i r. pcs s' i = Fetched r \<longrightarrow> r = client f (getChunk_req f (startOf f i))"
    using assms(4) old1 assms(6) by (rule data_fetched_exec)
  have oldE: "sink s = Some EOF \<longrightarrow> map snd (out s) = content"
    using assms(5) unfolding inv_data_def by blast
  show ?thesis
  proof (cases "sink s")
    case (Some e)
    with sink_stays_closed [OF assms(6)] have st: "sink s' = Some e" "out s' = out s" by simp_all
    have "sink s' = Some EOF \<longrightarrow> map snd (out s') = content"
      using oldE Some st by simp
    moreover have "sink s' \<noteq> None" using st by simp
    ultimately show ?thesis unfolding inv_data_def using d1 by blast
  next
    case None
    show ?thesis
    proof (cases "sink s'")
      case None
      have "sink s' \<noteq> Some EOF" using None by simp
      with data_open [OF assms(1,3,4,5) \<open>sink s = None\<close> assms(6) None] d1
      show ?thesis unfolding inv_data_def by blast
    next
      case (Some e)
      have "sink s' = Some EOF \<longrightarrow> map snd (out s') = content"
        using data_eof [OF assms(1,2,3,4,5) \<open>sink s = None\<close> assms(6)] by blast
      moreover have "sink s' \<noteq> None" using Some by simp
      ultimately show ?thesis unfolding inv_data_def using d1 by blast
    qed
  qed
qed

lemma inv_data_init: "inv_data f content init \<and> inv_prefix content init"
proof -
  have "map snd (out init) = take 0 content" by (simp add: init_def)
  then have "inv_prefix content init" unfolding inv_prefix_def by (rule exI)
  moreover have "inv_data f content init" unfolding inv_data_def init_def by simp
  ultimately show ?thesis by simp
qed

lemma inv_data_run:
  assumes "valid f" and "length content = nat (fsize f)" and "exact f content"
  shows "inv f s \<Longrightarrow> inv_data f content s \<and> inv_prefix content s \<Longrightarrow> run f evs s = Some s'
    \<Longrightarrow> inv_data f content s' \<and> inv_prefix content s'"
proof (induction evs arbitrary: s)
  case Nil
  then show ?case by simp
next
  case (Cons ev evs)
  from Cons.prems(3) obtain s1 where s1: "exec f ev s = Some s1" "run f evs s1 = Some s'"
    by (auto split: option.splits)
  from Cons.prems(1) s1(1) have i1: "inv f s1" by (rule inv_exec)
  from Cons.prems(2) have d: "inv_data f content s" and p: "inv_prefix content s" by simp_all
  from assms Cons.prems(1) d s1(1) have d1: "inv_data f content s1" by (rule inv_data_exec)
  from d p s1(1) have "inv_prefix content s1" by (rule inv_prefix_exec)
  with d1 have "inv_data f content s1 \<and> inv_prefix content s1" by simp
  with i1 show ?case using s1(2) by (rule Cons.IH)
qed

lemma run_append:
  "run f (xs @ ys) s = (case run f xs s of None \<Rightarrow> None | Some s' \<Rightarrow> run f ys s')"
  by (induction xs arbitrary: s) (auto split: option.splits)

lemma chunk_block:
  assumes "boundary f s i" and "\<not> getChunk_terminal f (startOf f i)"
    and "client f (getChunk_req f (startOf f i)) = Inr res" and "\<not> badStatus res"
    and "BodyErr res = None" and "1 \<le> concurrency f"
  shows "\<exists>evs s'. run f evs s = Some s' \<and> boundary f s' (Suc i)"
proof -
  from assms(1) have b: "pcs s i = Entry" "starts s i = startOf f i" "i \<in> seqClosed s"
    "sink s = None" "permits s = 0" "\<not> lockClosed s"
    by (simp_all add: boundary_def)
  show ?thesis
  proof (cases "Body res = []")
    case True
    have "\<exists>s'. run f [Acquire i, Spawn i, Do i, SelSeq i, CopyEOF i, DeferCloseNext i,
        DeferRelease i] s = Some s' \<and> boundary f s' (Suc i)"
      using b assms(2-6) True by (simp add: boundary_def)
    then show ?thesis by blast
  next
    case False
    have "\<exists>s'. run f [Acquire i, Spawn i, Do i, SelSeq i, CopyWrite i (length (Body res)),
        CopyEOF i, DeferCloseNext i, DeferRelease i] s = Some s' \<and> boundary f s' (Suc i)"
      using b assms(2-6) False by (simp add: boundary_def)
    then show ?thesis by blast
  qed
qed

lemma complete_from:
  assumes "valid f" and "exact f content" and "1 \<le> concurrency f"
  shows "boundary f s i \<Longrightarrow> (\<forall>k<i. \<not> getChunk_terminal f (startOf f k)) \<Longrightarrow>
         \<exists>evs s'. run f evs s = Some s' \<and> sink s' = Some EOF"
proof (induction "nat (fsize f + 1 - startOf f i)" arbitrary: s i rule: less_induct)
  case less
  show ?case
  proof (cases "getChunk_terminal f (startOf f i)")
    case True
    with less.prems(1) have "\<exists>s'. run f [TermSeq i] s = Some s' \<and> sink s' = Some EOF"
      by (simp add: boundary_def CloseWithError_def)
    then show ?thesis by blast
  next
    case False
    with less.prems(2) have nt: "\<forall>k<Suc i. \<not> getChunk_terminal f (startOf f k)"
      by (auto simp: less_Suc_eq)
    from startOf_step [OF assms(1) nt]
    have st: "startOf f i \<le> fsize f" "0 \<le> startOf f i" "startOf f i < startOf f (Suc i)"
      by simp_all
    from exactD [OF assms(2) nt]
    obtain res where res: "client f (getChunk_req f (startOf f i)) = Inr res"
      "\<not> badStatus res" "BodyErr res = None"
      by blast
    from chunk_block [OF less.prems(1) False res assms(3)]
    obtain evs1 s1 where r1: "run f evs1 s = Some s1" "boundary f s1 (Suc i)" by blast
    have "nat (fsize f + 1 - startOf f (Suc i)) < nat (fsize f + 1 - startOf f i)"
      using st by simp
    from less.hyps [OF this r1(2) nt]
    obtain evs2 s2 where r2: "run f evs2 s1 = Some s2" "sink s2 = Some EOF" by blast
    have "run f (evs1 @ evs2) s = Some s2"
      using r1(1) r2(1) by (simp add: run_append)
    with r2(2) show ?thesis by blast
  qed
qed

lemma complete_run_exists:
  assumes "valid f" and "exact f content" and "1 \<le> concurrency f"
  shows "\<exists>evs s. run f evs init = Some s \<and> sink s = Some EOF"
proof -
  have r0: "run f [MainReturn] init = Some (init\<lparr>seqClosed := {0}\<rparr>)"
    by (simp add: init_def)
  have "boundary f (init\<lparr>seqClosed := {0}\<rparr>) 0"
    by (simp add: boundary_def init_def)
  from complete_from [OF assms this]
  obtain evs s where r: "run f evs (init\<lparr>seqClosed := {0}\<rparr>) = Some s" "sink s = Some EOF"
    by auto
  have "run f ([MainReturn] @ evs) init = Some s"
    using r0 r(1) by (simp only: run_append option.case)
  with r(2) show ?thesis by blast
qed

lemmas run_simps = f5_def g5_def g1_def f7_def f8_def flaky_def file0_def serve_def serve416_def
  getChunk_terminal_def getChunk_end_def getChunk_next_def getChunk_req_def wrap64_def init_def
  CloseWithError_def badStatus_def DefaultChunkSize_def DefaultConcurrency_def

section \<open>Round trip\<close>

lemma exact_serve: "client f = serve content \<Longrightarrow> exact f content"
  by (simp add: exact_def getChunk_req_def serve_def badStatus_def)

lemma scheduler_round_trip:
  assumes "valid f" and "length content = nat (fsize f)" and "exact f content"
    and "1 \<le> concurrency f"
  shows "(\<exists>evs s. run f evs init = Some s \<and> sink s = Some EOF \<and> map snd (out s) = content) \<and>
         (\<forall>evs s. run f evs init = Some s \<longrightarrow>
            (\<exists>n. map snd (out s) = take n content) \<and>
            (sink s = Some EOF \<longrightarrow> map snd (out s) = content))"
proof -
  have safe: "\<And>evs s. run f evs init = Some s \<Longrightarrow>
      (\<exists>n. map snd (out s) = take n content) \<and> (sink s = Some EOF \<longrightarrow> map snd (out s) = content)"
  proof -
    fix evs s assume r: "run f evs init = Some s"
    from inv_data_run [OF assms(1,2,3) inv_init inv_data_init r]
    show "(\<exists>n. map snd (out s) = take n content) \<and>
        (sink s = Some EOF \<longrightarrow> map snd (out s) = content)"
      by (simp add: inv_data_def inv_prefix_def)
  qed
  from complete_run_exists [OF assms(1,3,4)]
  obtain evs s where r: "run f evs init = Some s" "sink s = Some EOF" by blast
  with safe [OF r(1)] have "map snd (out s) = content" by simp
  with r have "\<exists>evs s. run f evs init = Some s \<and> sink s = Some EOF \<and> map snd (out s) = content"
    by blast
  with safe show ?thesis by blast
qed

lemma exact_g5: "exact g5 ''abcde''"
  unfolding exact_def
proof (intro allI impI)
  fix i assume nt: "\<forall>k\<le>i. \<not> getChunk_terminal g5 (startOf g5 k)"
  have t2: "getChunk_terminal g5 (startOf g5 (Suc (Suc 0)))"
    by (simp add: g5_def getChunk_terminal_def getChunk_next_def getChunk_end_def wrap64_def)
  consider "i = 0" | "i = Suc 0" | "Suc (Suc 0) \<le> i" by arith
  then show "\<exists>res. client g5 (getChunk_req g5 (startOf g5 i)) = Inr res \<and> \<not> badStatus res \<and>
           Body res = take (nat (getChunk_end g5 (startOf g5 i) + 1 - startOf g5 i))
                        (drop (nat (startOf g5 i)) ''abcde'') \<and>
           BodyErr res = None"
  proof cases
    case 1
    then show ?thesis
      by (simp add: g5_def serve416_def serve_def getChunk_req_def getChunk_end_def
          getChunk_next_def wrap64_def badStatus_def)
  next
    case 2
    then show ?thesis
      by (simp add: g5_def serve416_def serve_def getChunk_req_def getChunk_end_def
          getChunk_next_def wrap64_def badStatus_def)
  next
    case 3
    with nt t2 show ?thesis by blast
  qed
qed

lemma exact_g1: "exact g1 ''abcde''"
  unfolding exact_def
proof (intro allI impI)
  fix i assume nt: "\<forall>k\<le>i. \<not> getChunk_terminal g1 (startOf g1 k)"
  have t1: "getChunk_terminal g1 (startOf g1 (Suc 0))"
    by (simp add: g1_def getChunk_terminal_def getChunk_next_def getChunk_end_def wrap64_def)
  consider "i = 0" | "Suc 0 \<le> i" by arith
  then show "\<exists>res. client g1 (getChunk_req g1 (startOf g1 i)) = Inr res \<and> \<not> badStatus res \<and>
           Body res = take (nat (getChunk_end g1 (startOf g1 i) + 1 - startOf g1 i))
                        (drop (nat (startOf g1 i)) ''abcde'') \<and>
           BodyErr res = None"
  proof cases
    case 1
    then show ?thesis
      by (simp add: g1_def serve416_def serve_def getChunk_req_def getChunk_end_def
          getChunk_next_def wrap64_def badStatus_def)
  next
    case 2
    with nt t1 show ?thesis by blast
  qed
qed

text \<open>
  C1 as stated does not hold for every resource: for an empty resource, whose probe
  reports the length 0 and carries no range header, \<open>GetContext\<close> returns an error and no
  reader, so there is no stream at all. And for a size and a chunk size whose sum exceeds
  the 64-bit range the addition \<open>start + f.chunkSize\<close> wraps around: the second task,
  started at 4611686018427387905, asks for a range that ends at -9223372036854775807.
\<close>

theorem round_trip_counterexample:
  "GetContext newReq0 (serve []) ''u'' [WithChunkSize 2, WithConcurrency 2]
     = (Inl (NumError ''Atoi'' [] ErrSyntax), []) \<and>
   startOf (file0\<lparr>fsize := 9223372036854775806, chunkSize := 4611686018427387904\<rparr>) (Suc 0)
     = 4611686018427387905 \<and>
   getChunk_end (file0\<lparr>fsize := 9223372036854775806, chunkSize := 4611686018427387904\<rparr>)
       4611686018427387905
     = - 9223372036854775807"
  by (simp add: GetContext_def GetContext_size_def newReq0_def serve_def WithChunkSize_def
      WithConcurrency_def Header_Get_def Split_def Atoi_def getChunk_next_def getChunk_end_def
      wrap64_def)

text \<open>
  C1, amended: let the requests be constructible, let the probe succeed and the size
  resolution of \<open>GetContext\<close> yield the length of the content, let the options be
  \<open>WithChunkSize C\<close> and \<open>WithConcurrency K\<close> for any \<open>C\<close> and \<open>K\<close> (values below 1 are
  clamped), let size plus chunk size fit a signed 64-bit integer, and let every range
  request that is issued succeed with exactly the bytes of the requested inclusive range.
  Then \<open>GetContext\<close> returns the reader and starts the first task at offset 0; there is
  a run of the scheduler that ends with the clean end-of-stream; and in every run, under
  any schedule, what the reader has received is a prefix of the content, and it is the
  whole content once the stream has ended with \<open>EOF\<close>.
\<close>

theorem round_trip:
  assumes "newReq ''GET'' url = Inr rq" and "newReq ''HEAD'' url = Inr sizeReq"
    and "dc (sizeReq\<lparr>ReqHeader := ReqHeader rq\<rparr>) = Inr res"
    and "GetContext_size res = Inr (int (length content))"
    and "f = \<lparr>client = dc, req = rq, chunkSize = (if C < 1 then DefaultChunkSize else C),
              concurrency = (if K < 1 then 1 else K), fsize = int (length content),
              debug = False\<rparr>"
    and "fsize f + chunkSize f < 9223372036854775808"
    and "exact f content"
  shows "GetContext newReq dc url [WithChunkSize C, WithConcurrency K] = (Inr f, [0]) \<and>
         (\<exists>evs s. run f evs init = Some s \<and> sink s = Some EOF \<and> map snd (out s) = content) \<and>
         (\<forall>evs s. run f evs init = Some s \<longrightarrow>
            (\<exists>n. map snd (out s) = take n content) \<and>
            (sink s = Some EOF \<longrightarrow> map snd (out s) = content))"
proof -
  have g: "GetContext newReq dc url [WithChunkSize C, WithConcurrency K] = (Inr f, [0])"
    using assms(1-5)
    by (simp add: GetContext_def WithChunkSize_def WithConcurrency_def)
  have v: "valid f"
    using assms(5,6) by (simp add: valid_def DefaultChunkSize_def)
  have l: "length content = nat (fsize f)" and k: "1 \<le> concurrency f"
    using assms(5) by simp_all
  from g scheduler_round_trip [OF v l assms(7) k] show ?thesis by (rule conjI)
qed

theorem round_trip_witness:
  "GetContext newReq0 (serve416 ''abcde'') ''u'' [WithChunkSize 2, WithConcurrency 2]
     = (Inr g5, [0]) \<and>
   exact g5 ''abcde'' \<and> run g5 evs_full init \<noteq> None \<and>
   sink (the (run g5 evs_full init)) = Some EOF \<and>
   map snd (out (the (run g5 evs_full init))) = ''abcde'' \<and>
   GetContext newReq0 (serve416 ''abcde'') ''u'' [WithChunkSize 9, WithConcurrency 1]
     = (Inr g1, [0]) \<and>
   exact g1 ''abcde'' \<and> run g1 evs_one init \<noteq> None \<and>
   sink (the (run g1 evs_one init)) = Some EOF \<and>
   map snd (out (the (run g1 evs_one init))) = ''abcde''"
proof -
  have rq: "newReq0 ''GET'' ''u'' = Inr \<lparr>Method = ''GET'', URL = ''u'', ReqHeader = [], Range = None\<rparr>"
    and sq: "newReq0 ''HEAD'' ''u''
      = Inr \<lparr>Method = ''HEAD'', URL = ''u'', ReqHeader = [], Range = None\<rparr>"
    by (simp_all add: newReq0_def)
  have pr: "serve416 ''abcde''
      (\<lparr>Method = ''HEAD'', URL = ''u'', ReqHeader = [], Range = None\<rparr>
        \<lparr>ReqHeader := ReqHeader \<lparr>Method = ''GET'', URL = ''u'', ReqHeader = [], Range = None\<rparr>\<rparr>)
      = Inr \<lparr>StatusCode = 200, Status = ''200 OK'', ContentLength = 5, Header = [],
             Body = ''abcde'', BodyErr = None\<rparr>"
    by (simp add: serve416_def serve_def)
  have sz: "GetContext_size \<lparr>StatusCode = 200, Status = ''200 OK'', ContentLength = 5,
      Header = [], Body = ''abcde'', BodyErr = None\<rparr> = Inr (int (length ''abcde''))"
    by (simp add: GetContext_size_def)
  have d5: "g5 = \<lparr>client = serve416 ''abcde'',
      req = \<lparr>Method = ''GET'', URL = ''u'', ReqHeader = [], Range = None\<rparr>,
      chunkSize = (if (2::int) < 1 then DefaultChunkSize else 2),
      concurrency = (if (2::int) < 1 then 1 else 2), fsize = int (length ''abcde''),
      debug = False\<rparr>"
    by (simp add: g5_def)
  have d1: "g1 = \<lparr>client = serve416 ''abcde'',
      req = \<lparr>Method = ''GET'', URL = ''u'', ReqHeader = [], Range = None\<rparr>,
      chunkSize = (if (9::int) < 1 then DefaultChunkSize else 9),
      concurrency = (if (1::int) < 1 then 1 else 1), fsize = int (length ''abcde''),
      debug = False\<rparr>"
    by (simp add: g1_def)
  have o5: "fsize g5 + chunkSize g5 < 9223372036854775808"
    and o1: "fsize g1 + chunkSize g1 < 9223372036854775808"
    by (simp_all add: g5_def g1_def)
  have r5: "run g5 evs_full init = Some (the (run g5 evs_full init))"
    and s5: "sink (the (run g5 evs_full init)) = Some EOF"
    and n5: "run g5 evs_full init \<noteq> None"
    by (simp_all add: evs_full_def run_simps)
  have r1: "run g1 evs_one init = Some (the (run g1 evs_one init))"
    and s1: "sink (the (run g1 evs_one init)) = Some EOF"
    and n1: "run g1 evs_one init \<noteq> None"
    by (simp_all add: evs_one_def run_simps)
  note t5 = round_trip [where newReq = newReq0 and dc = "serve416 ''abcde''" and C = 2
      and K = 2 and content = "''abcde''" and f = g5, OF rq sq pr sz d5 o5 exact_g5]
  note t1 = round_trip [where newReq = newReq0 and dc = "serve416 ''abcde''" and C = 9
      and K = 1 and content = "''abcde''" and f = g1, OF rq sq pr sz d1 o1 exact_g1]
  from t5 have a5: "GetContext newReq0 (serve416 ''abcde'') ''u''
      [WithChunkSize 2, WithConcurrency 2] = (Inr g5, [0])" by (rule conjunct1)
  from t1 have a1: "GetContext newReq0 (serve416 ''abcde'') ''u''
      [WithChunkSize 9, WithConcurrency 1] = (Inr g1, [0])" by (rule conjunct1)
  from t5 r5 s5 have b5: "map snd (out (the (run g5 evs_full init))) = ''abcde''" by blast
  from t1 r1 s1 have b1: "map snd (out (the (run g1 evs_one init))) = ''abcde''" by blast
  show ?thesis
    by (intro conjI) (rule a5 exact_g5 n5 s5 b5 a1 exact_g1 n1 s1 b1)+
qed

section \<open>After the sink is closed\<close>

lemma sink_closed_run:
  "sink s = Some e \<Longrightarrow> run f evs s = Some s' \<Longrightarrow> sink s' = Some e \<and> out s' = out s"
proof (induction evs arbitrary: s)
  case Nil
  then show ?case by simp
next
  case (Cons ev evs)
  from Cons.prems(2) obtain s1 where s1: "exec f ev s = Some s1" "run f evs s1 = Some s'"
    by (auto split: option.splits)
  from sink_stays_closed [OF s1(1) Cons.prems(1)] have c: "sink s1 = Some e" "out s1 = out s"
    by simp_all
  from Cons.IH [OF c(1) s1(2)] c(2) show ?case by simp
qed

lemma closed_forever:
  assumes "sink s' \<noteq> None"
  shows "\<forall>evs s''. run f evs s' = Some s'' \<longrightarrow> sink s'' = sink s' \<and> out s'' = out s'"
  using assms sink_closed_run [of s' _ f] by fastforce

lemma not_yet_written:
  assumes "inv f s" and "\<not> pastToken (pcs s i)"
  shows "\<forall>j\<in>fst ` set (out s). j < i"
proof
  fix j assume j: "j \<in> fst ` set (out s)"
  with assms(1) have p: "pastToken (pcs s j)" and fin: "\<forall>k<j. finished (pcs s k)"
    by (auto simp: inv_def inv_out_def)
  show "j < i"
  proof (rule ccontr)
    assume "\<not> j < i"
    then consider "j = i" | "i < j" by (auto simp: not_less le_less)
    then show False
    proof cases
      case 1
      with p assms(2) show False by simp
    next
      case 2
      with fin have "finished (pcs s i)" by simp
      with assms(2) show False by (simp add: finished_pastToken)
    qed
  qed
qed

section \<open>Failure of a fetch\<close>

text \<open>
  C7 as stated does not hold in every run. In the run below the fetch of chunk 2 fails
  first and closes the sink while chunk 0 has written one of its two bytes; chunk 1 then
  gets status 500 and calls \<open>CloseWithError\<close>, which does not overwrite: the read fails
  with the error of chunk 2, not with that of chunk 1, and the reader has received a byte
  of chunk 0, which never completes its write.
\<close>

theorem fetch_failure_counterexample:
  "run f7 (evs_fetch @ [DoFailed 2]) init \<noteq> None \<and>
   pcs (the (run f7 (evs_fetch @ [DoFailed 2]) init)) 1
     = Fetched (Inr \<lparr>StatusCode = 500, Status = ''500 Internal Server Error'',
                      ContentLength = 0, Header = [], Body = [], BodyErr = None\<rparr>) \<and>
   pcs (the (run f7 (evs_fetch @ [DoFailed 2]) init)) 0 = Copying ''b'' None \<and>
   run f7 (evs_fetch @ [DoFailed 2, BadStatus 1, CopyClosed 0]) init \<noteq> None \<and>
   pcs (the (run f7 (evs_fetch @ [DoFailed 2, BadStatus 1, CopyClosed 0]) init)) 1 = CloseNext \<and>
   sink (the (run f7 (evs_fetch @ [DoFailed 2, BadStatus 1, CopyClosed 0]) init))
     = Some (External ''connection reset'') \<and>
   out (the (run f7 (evs_fetch @ [DoFailed 2, BadStatus 1, CopyClosed 0]) init))
     = [(0, CHR ''a'')]"
  by (simp add: evs_fetch_def run_simps)

text \<open>
  C7, amended: a task whose fetch failed at the transport level or returned a status
  outside 200-299 cannot take the token branches; its next action, enabled whether or not
  its ordering token has arrived, calls \<open>CloseWithError\<close> with that error and writes
  nothing. If the sink was still open the read fails with that error, otherwise the
  earlier error stays. From then on the sink's error and the delivered bytes never change,
  and all bytes delivered come from chunks before the failed one.
\<close>

theorem fetch_failure:
  assumes "run f evs init = Some s" and "pcs s i = Fetched r"
    and "r = Inl err \<and> ev = DoFailed i \<or>
         (\<exists>res. r = Inr res \<and> badStatus res \<and>
            err = UnexpectedStatus (StatusCode res) (Status res) \<and> ev = BadStatus i)"
  shows "exec f (SelSeq i) s = None \<and> exec f (SelCtx i) s = None \<and>
         (\<forall>j\<in>fst ` set (out s). j < i) \<and>
         (\<exists>s'. exec f ev s = Some s' \<and> pcs s' i = CloseNext \<and> out s' = out s \<and>
            sink s' = CloseWithError err (sink s) \<and> (sink s = None \<longrightarrow> sink s' = Some err) \<and>
            (\<forall>evs' s''. run f evs' s' = Some s'' \<longrightarrow> sink s'' = sink s' \<and> out s'' = out s'))"
proof -
  have I: "inv f s" using assms(1) by (rule inv_reachable)
  have nw: "\<forall>j\<in>fst ` set (out s). j < i"
    using not_yet_written [OF I, of i] assms(2) by simp
  have blocked: "exec f (SelSeq i) s = None \<and> exec f (SelCtx i) s = None"
    using assms(2,3) by (auto split: option.splits)
  obtain s' where s': "exec f ev s = Some s'" "pcs s' i = CloseNext" "out s' = out s"
    "sink s' = CloseWithError err (sink s)"
    using assms(2,3) by auto
  have ne: "sink s' \<noteq> None" using s'(4) by (simp add: CloseWithError_def split: option.splits)
  have op: "sink s = None \<longrightarrow> sink s' = Some err" using s'(4) by (simp add: CloseWithError_def)
  have "\<exists>s'. exec f ev s = Some s' \<and> pcs s' i = CloseNext \<and> out s' = out s \<and>
            sink s' = CloseWithError err (sink s) \<and> (sink s = None \<longrightarrow> sink s' = Some err) \<and>
            (\<forall>evs' s''. run f evs' s' = Some s'' \<longrightarrow> sink s'' = sink s' \<and> out s'' = out s')"
    by (intro exI conjI) (rule s'(1) s'(2) s'(3) s'(4) op closed_forever [OF ne])+
  then show ?thesis
    by (intro conjI) (rule blocked [THEN conjunct1] blocked [THEN conjunct2] nw | assumption)+
qed

theorem fetch_failure_witness:
  "run f7 evs_fetch init \<noteq> None \<and>
   pcs (the (run f7 evs_fetch init)) 2 = Fetched (Inl (External ''connection reset'')) \<and>
   2 \<notin> seqClosed (the (run f7 evs_fetch init)) \<and>
   sink (the (run f7 evs_fetch init)) = None \<and>
   exec f7 (DoFailed 2) (the (run f7 evs_fetch init)) \<noteq> None \<and>
   sink (the (exec f7 (DoFailed 2) (the (run f7 evs_fetch init))))
     = Some (External ''connection reset'') \<and>
   out (the (exec f7 (DoFailed 2) (the (run f7 evs_fetch init)))) = [(0, CHR ''a'')]"
proof -
  have r: "run f7 evs_fetch init = Some (the (run f7 evs_fetch init))"
    by (simp add: evs_fetch_def run_simps)
  have p: "pcs (the (run f7 evs_fetch init)) 2 = Fetched (Inl (External ''connection reset''))"
    by (simp add: evs_fetch_def run_simps)
  show ?thesis
    using fetch_failure [OF r p, of "External ''connection reset''" "DoFailed 2"]
    by (simp add: evs_fetch_def run_simps)
qed

section \<open>Cancellation\<close>

text \<open>
  C8 as stated does not hold in every run. In the run below the fetch of chunk 2 fails and
  closes the sink; then the context is cancelled while task 1 waits for its ordering token.
  Task 1 takes the cancellation branch, but its \<open>CloseWithError\<close> does not overwrite: the
  reader observes the transport error of chunk 2, not the cancellation error.
\<close>

theorem cancel_while_waiting_counterexample:
  "run f8 (evs_fetch @ [DoFailed 2, CtxDone Canceled]) init \<noteq> None \<and>
   ctxErr (the (run f8 (evs_fetch @ [DoFailed 2, CtxDone Canceled]) init)) = Some Canceled \<and>
   1 \<notin> seqClosed (the (run f8 (evs_fetch @ [DoFailed 2, CtxDone Canceled]) init)) \<and>
   pcs (the (run f8 (evs_fetch @ [DoFailed 2, CtxDone Canceled]) init)) 1
     = Fetched (serve ''abcdef'' (getChunk_req f8 2)) \<and>
   run f8 (evs_fetch @ [DoFailed 2, CtxDone Canceled, SelCtx 1]) init \<noteq> None \<and>
   pcs (the (run f8 (evs_fetch @ [DoFailed 2, CtxDone Canceled, SelCtx 1]) init)) 1 = CloseNext \<and>
   sink (the (run f8 (evs_fetch @ [DoFailed 2, CtxDone Canceled, SelCtx 1]) init))
     = Some (External ''connection reset'')"
  by (simp add: evs_fetch_def run_simps)

text \<open>
  C8, amended: when the context is done while a task (terminal, or one that fetched
  successfully) waits for an ordering token that has not arrived, the token branches are
  not enabled; the task's action calls \<open>CloseWithError\<close> with the cancellation error
  (\<open>Canceled\<close> or \<open>DeadlineExceeded\<close>) and the task writes nothing, neither before nor
  after. If the sink was still open the reader observes the cancellation error, which is
  not \<open>EOF\<close>; otherwise the earlier error stays. From then on the sink's error and the
  delivered bytes never change.
\<close>

theorem cancel_while_waiting:
  assumes "run f evs init = Some s" and "ctxErr s = Some e" and "i \<notin> seqClosed s"
    and "pcs s i = Entry \<and> getChunk_terminal f (starts s i) \<and> ev = TermCtx i \<and> p = TermDefer \<or>
         (\<exists>res. pcs s i = Fetched (Inr res) \<and> \<not> badStatus res \<and> ev = SelCtx i \<and> p = CloseNext)"
  shows "(e = Canceled \<or> e = DeadlineExceeded) \<and>
         exec f (TermSeq i) s = None \<and> exec f (SelSeq i) s = None \<and>
         (\<forall>j\<in>fst ` set (out s). j < i) \<and>
         (\<exists>s'. exec f ev s = Some s' \<and> pcs s' i = p \<and> out s' = out s \<and>
            sink s' = CloseWithError e (sink s) \<and>
            (sink s = None \<longrightarrow> sink s' = Some e \<and> e \<noteq> EOF) \<and>
            (\<forall>evs' s''. run f evs' s' = Some s'' \<longrightarrow> sink s'' = sink s' \<and> out s'' = out s'))"
proof -
  have I: "inv f s" using assms(1) by (rule inv_reachable)
  then have ce: "e = Canceled \<or> e = DeadlineExceeded"
    using assms(2) by (simp add: inv_def inv_ctx_def)
  have np: "\<not> pastToken (pcs s i)" using assms(4) by auto
  have nw: "\<forall>j\<in>fst ` set (out s). j < i"
    using not_yet_written [OF I np] .
  have blocked: "exec f (TermSeq i) s = None \<and> exec f (SelSeq i) s = None"
    using assms(3,4) by (auto split: pc.splits sum.splits)
  obtain s' where s': "exec f ev s = Some s'" "pcs s' i = p" "out s' = out s"
    "sink s' = CloseWithError e (sink s)"
    using assms(2,4) by auto
  have ne: "sink s' \<noteq> None" using s'(4) by (simp add: CloseWithError_def split: option.splits)
  have op: "sink s = None \<longrightarrow> sink s' = Some e \<and> e \<noteq> EOF"
    using s'(4) ce by (auto simp: CloseWithError_def)
  have "\<exists>s'. exec f ev s = Some s' \<and> pcs s' i = p \<and> out s' = out s \<and>
            sink s' = CloseWithError e (sink s) \<and>
            (sink s = None \<longrightarrow> sink s' = Some e \<and> e \<noteq> EOF) \<and>
            (\<forall>evs' s''. run f evs' s' = Some s'' \<longrightarrow> sink s'' = sink s' \<and> out s'' = out s')"
    by (intro exI conjI) (rule s'(1) s'(2) s'(3) s'(4) op closed_forever [OF ne])+
  then show ?thesis
    by (intro conjI) (rule ce blocked [THEN conjunct1] blocked [THEN conjunct2] nw | assumption)+
qed


theorem cancel_while_waiting_witness:
  "run f8 (evs_fetch @ [CtxDone Canceled]) init \<noteq> None \<and>
   ctxErr (the (run f8 (evs_fetch @ [CtxDone Canceled]) init)) = Some Canceled \<and>
   1 \<notin> seqClosed (the (run f8 (evs_fetch @ [CtxDone Canceled]) init)) \<and>
   sink (the (run f8 (evs_fetch @ [CtxDone Canceled]) init)) = None \<and>
   exec f8 (SelCtx 1) (the (run f8 (evs_fetch @ [CtxDone Canceled]) init)) \<noteq> None \<and>
   sink (the (exec f8 (SelCtx 1) (the (run f8 (evs_fetch @ [CtxDone Canceled]) init))))
     = Some Canceled \<and>
   out (the (exec f8 (SelCtx 1) (the (run f8 (evs_fetch @ [CtxDone Canceled]) init))))
     = [(0, CHR ''a'')]"
proof -
  have r: "run f8 (evs_fetch @ [CtxDone Canceled]) init
      = Some (the (run f8 (evs_fetch @ [CtxDone Canceled]) init))"
    by (simp add: evs_fetch_def run_simps)
  have c: "ctxErr (the (run f8 (evs_fetch @ [CtxDone Canceled]) init)) = Some Canceled"
    and n: "1 \<notin> seqClosed (the (run f8 (evs_fetch @ [CtxDone Canceled]) init))"
    by (simp_all add: evs_fetch_def run_simps)
  show ?thesis
    using cancel_while_waiting [OF r c n, of "SelCtx 1" CloseNext]
    by (simp add: evs_fetch_def run_simps)
qed

section \<open>Write order\<close>



section \<open>The permit pool\<close>

text \<open>
  C6: in every reachable state the tasks between the send on \<open>concurrencyLock\<close>
  (line 124) and the deferred receive (line 126) are as many as the buffer holds
  elements, and at most \<open>concurrency\<close>; so at most \<open>concurrency\<close> tasks are inside
  \<open>client.Do\<close>. A task enters its fetch only holding a permit, and the only action by
  which a task that was not terminal returns is the deferred receive, which gives the
  permit back.
\<close>

theorem permit_bound:
  assumes "run f evs init = Some s"
  shows "permits s = card {i. holding (pcs s i)} \<and>
         card {i. holding (pcs s i)} \<le> nat (concurrency f) \<and>
         card {i. pcs s i = Fetching} \<le> nat (concurrency f) \<and>
         (\<forall>ev s' i. exec f ev s = Some s' \<and> pcs s' i = Fetching \<and> pcs s i \<noteq> Fetching \<longrightarrow>
            holding (pcs s i)) \<and>
         (\<forall>ev s' i. exec f ev s = Some s' \<and> pcs s' i = Returned \<and> pcs s i \<noteq> Returned \<longrightarrow>
            ev = DeferRelease i \<and> holding (pcs s i) \<and> permits s' = permits s - 1 \<and>
            0 < permits s)"
proof -
  have I: "inv_permits f s" and ch: "inv_chain s"
    using inv_reachable [OF assms] by (simp_all add: inv_def)
  then have fin: "finite {i. pcs s i \<noteq> NotStarted}"
    and eq: "permits s = card {i. holding (pcs s i)}"
    and le: "permits s \<le> nat (concurrency f)"
    by (simp_all add: inv_permits_def)
  have "card {i. pcs s i = Fetching} \<le> card {i. holding (pcs s i)}"
    by (rule card_mono [OF finite_holding [OF fin]]) auto
  with eq le have a: "card {i. pcs s i = Fetching} \<le> nat (concurrency f)" by simp
  have b: "\<forall>ev s' i. exec f ev s = Some s' \<and> pcs s' i = Fetching \<and> pcs s i \<noteq> Fetching \<longrightarrow>
            holding (pcs s i)"
  proof (intro allI impI)
    fix ev s' i
    assume "exec f ev s = Some s' \<and> pcs s' i = Fetching \<and> pcs s i \<noteq> Fetching"
    then show "holding (pcs s i)"
      by (cases ev) (auto split: if_splits pc.splits sum.splits option.splits)
  qed
  have c: "\<forall>ev s' i. exec f ev s = Some s' \<and> pcs s' i = Returned \<and> pcs s i \<noteq> Returned \<longrightarrow>
            ev = DeferRelease i \<and> holding (pcs s i) \<and> permits s' = permits s - 1 \<and>
            0 < permits s"
  proof (intro allI impI)
    fix ev s' i
    assume h: "exec f ev s = Some s' \<and> pcs s' i = Returned \<and> pcs s i \<noteq> Returned"
    then have "ev = DeferRelease i \<and> pcs s i = Release \<and> permits s' = permits s - 1"
      by (cases ev) (auto split: if_splits pc.splits sum.splits option.splits)
    moreover from this have "0 < permits s"
      using card_holding_pos [OF fin, of i] eq by simp
    ultimately show "ev = DeferRelease i \<and> holding (pcs s i) \<and>
        permits s' = permits s - 1 \<and> 0 < permits s"
      by simp
  qed
  from eq le have d: "permits s = card {i. holding (pcs s i)}"
    "card {i. holding (pcs s i)} \<le> nat (concurrency f)" by simp_all
  from d a b c show ?thesis by blast
qed

theorem permit_bound_witness:
  "run f5 evs_two init \<noteq> None \<and>
   permits (the (run f5 evs_two init)) = 2 \<and>
   card {i. holding (pcs (the (run f5 evs_two init)) i)} = 2 \<and>
   pcs (the (run f5 evs_two init)) 2 = Entry \<and>
   exec f5 (Acquire 2) (the (run f5 evs_two init)) = None"
proof -
  have r: "run f5 evs_two init = Some (the (run f5 evs_two init))"
    by (simp add: evs_two_def run_simps)
  show ?thesis
    using permit_bound [OF r] by (simp add: evs_two_def run_simps)
qed

section \<open>The options\<close>

text \<open>
  C10: neither option constructor rejects a value: both return a nil error for every
  argument. For \<open>c < 1\<close>, \<open>WithConcurrency c\<close> sets the concurrency limit to 1 and
  \<open>WithChunkSize c\<close> sets the chunk size to the default, which is 5242880 (5 MiB).
\<close>

theorem options_clamp:
  "fst (WithConcurrency c f) = None \<and> fst (WithChunkSize c f) = None \<and>
   (c < 1 \<longrightarrow>
      WithConcurrency c f = (None, f\<lparr>concurrency := 1\<rparr>) \<and>
      WithChunkSize c f = (None, f\<lparr>chunkSize := 5242880\<rparr>))"
  by (simp add: WithConcurrency_def WithChunkSize_def DefaultChunkSize_def)

theorem options_clamp_witness:
  "(0::int) < 1 \<and>
   WithConcurrency 0 file0 = (None, file0\<lparr>concurrency := 1\<rparr>) \<and>
   WithChunkSize 0 file0 = (None, file0\<lparr>chunkSize := 5242880\<rparr>) \<and>
   WithConcurrency (- 7) file0 = (None, file0\<lparr>concurrency := 1\<rparr>) \<and>
   WithChunkSize (- 7) file0 = (None, file0\<lparr>chunkSize := 5242880\<rparr>)"
  using options_clamp [of 0 file0] options_clamp [of "- 7" file0] by simp

end
